theory Spec2Isabelle
  imports Main
begin

section \<open>Values, errors and wire messages\<close>

text \<open>
  The development follows \<^verbatim>\<open>ext/js/comm/cross-frame-api.js\<close>: the class
  \<^verbatim>\<open>CrossFrameAPIPort\<close> (one channel over one \<^verbatim>\<open>chrome.runtime.Port\<close>) and
  the class \<^verbatim>\<open>CrossFrameAPI\<close> (the registry of channels and the handler table).

  Payload values are not inspected by the module; a small datatype of JavaScript values
  stands for them.
\<close>

datatype jsval = JUndefined | JNull | JBool bool | JNum int | JStr string

text \<open>
  Modelled from the spec: the error codec \<^verbatim>\<open>ExtensionError.serialize\<close> /
  \<^verbatim>\<open>ExtensionError.deserialize\<close> lives in \<^verbatim>\<open>core/extension-error.js\<close>, which is
  not part of the sources at hand. The spec says that the core treats the wire descriptor
  as opaque, so both directions are kept as constructors: \<open>Serialized msg\<close> is the
  descriptor of \<^verbatim>\<open>new Error(msg)\<close>, and \<open>Deserialized d\<close> is the error object
  obtained from the descriptor \<open>d\<close>.
\<close>

datatype error_descriptor = Serialized string

datatype failure =
    Error string
  | Deserialized error_descriptor

text \<open>
  A value of type \<^verbatim>\<open>unknown\<close> handed to \<^verbatim>\<open>_onError\<close>: either an instance of
  \<^verbatim>\<open>Error\<close>, or any other value, given by the text that a template string
  makes of it.
\<close>

datatype unknown =
    IsError failure
  | NotError string

text \<open>
  \<^verbatim>\<open>import('core').Response\<close>: the \<^verbatim>\<open>data\<close> of a result message. The field
  \<open>error\<close> is \<open>None\<close> when \<^verbatim>\<open>typeof data.error === 'undefined'\<close>; an absent
  \<open>result\<close> field reads as \<open>JUndefined\<close>.
\<close>

record response =
  error :: "error_descriptor option"
  result :: jsval

datatype message =
    Invoke int string jsval
  | Ack int
  | Result int response
  | Unrecognised string int

section \<open>Rendering numbers in template strings\<close>

text \<open>
  \<^verbatim>\<open>`${id}`\<close> for an integral number below \<open>10^21\<close> in absolute value is its
  decimal numeral.
\<close>

definition digit_char :: "nat \<Rightarrow> char" where
  "digit_char d = char_of (48 + d)"

fun string_of_nat :: "nat \<Rightarrow> string" where
  "string_of_nat n =
     (if n < 10 then [digit_char n]
      else string_of_nat (n div 10) @ [digit_char (n mod 10)])"

declare string_of_nat.simps [simp del]

definition string_of_int :: "int \<Rightarrow> string" where
  "string_of_int i =
     (if i < 0 then CHR ''-'' # string_of_nat (nat (- i)) else string_of_nat (nat i))"

section \<open>JavaScript \<^verbatim>\<open>Map\<close> objects\<close>

text \<open>
  A \<^verbatim>\<open>Map\<close> keeps its entries in insertion order and has one entry per key. It is
  an association list: \<^verbatim>\<open>set\<close> replaces the value of a present key in place and
  appends an absent one, \<^verbatim>\<open>delete\<close> removes the entry and tells whether there was one.
\<close>

type_synonym ('k, 'v) jsmap = "('k \<times> 'v) list"

definition Map_get :: "('k, 'v) jsmap \<Rightarrow> 'k \<Rightarrow> 'v option" where
  "Map_get m k = map_of m k"

definition Map_has :: "('k, 'v) jsmap \<Rightarrow> 'k \<Rightarrow> bool" where
  "Map_has m k = (map_of m k \<noteq> None)"

fun Map_set :: "('k, 'v) jsmap \<Rightarrow> 'k \<Rightarrow> 'v \<Rightarrow> ('k, 'v) jsmap" where
  "Map_set [] k v = [(k, v)]"
| "Map_set ((k', v') # m) k v =
     (if k' = k then (k, v) # m else (k', v') # Map_set m k v)"

definition Map_delete :: "('k, 'v) jsmap \<Rightarrow> 'k \<Rightarrow> ('k, 'v) jsmap" where
  "Map_delete m k = filter (\<lambda>e. fst e \<noteq> k) m"

definition Map_keys :: "('k, 'v) jsmap \<Rightarrow> 'k list" where
  "Map_keys m = map fst m"

section \<open>The channel: \<^verbatim>\<open>CrossFrameAPIPort\<close>\<close>

text \<open>
  \<^verbatim>\<open>import('cross-frame-api').Invocation\<close>. The pair of closures
  \<^verbatim>\<open>resolve\<close>, \<^verbatim>\<open>reject\<close> belongs to one \<^verbatim>\<open>Promise\<close>; the field
  \<open>resolver\<close> names that promise by the number of promises \<^verbatim>\<open>invoke\<close> made
  before it. \<open>timer\<close> is the handle \<^verbatim>\<open>setTimeout\<close> returned, or \<open>None\<close> for
  \<^verbatim>\<open>null\<close>.
\<close>

record invocation =
  invocation_id :: int
  resolver :: nat
  responseTimeout :: "int option"
  action :: string
  ack :: bool
  timer :: "nat option"

text \<open>
  What the channel does to the world outside it, in the order it does it: calls of
  \<^verbatim>\<open>resolve\<close> and \<^verbatim>\<open>reject\<close> on a promise, calls of
  \<^verbatim>\<open>port.postMessage\<close> (with the value thrown, if the call threw),
  \<^verbatim>\<open>log.warn\<close>, \<^verbatim>\<open>this.trigger('disconnect', this)\<close>, the read
  \<^verbatim>\<open>this._messageHandlers.get(action)\<close> of the shared handler table, and the call
  of a handler through \<^verbatim>\<open>invokeMessageHandler\<close>.
\<close>

datatype effect =
    Resolve nat jsval
  | Reject nat failure
  | PostMessage message "unknown option"
  | LogWarn failure
  | Trigger
  | GetHandler string
  | CallHandler string jsval

text \<open>
  The fields of the object. \<open>port\<close> is \<open>None\<close> for \<^verbatim>\<open>this._port === null\<close>.
  \<open>eventListeners\<close> tells whether the listeners that \<^verbatim>\<open>prepare\<close> adds to the
  transport are installed. The last four fields are bookkeeping of the model:
  \<open>timers\<close> are the timeouts that are armed (handle, and the arguments of the
  \<^verbatim>\<open>_onError\<close> call the timeout makes), \<open>timerCount\<close> and \<open>promiseCount\<close>
  count the timers and promises made so far and give the next one its name, and
  \<open>trace\<close> lists the effects so far.
\<close>

record port_state =
  otherTabId :: int
  otherFrameId :: int
  port :: "nat option"
  activeInvocations :: "(int, invocation) jsmap"
  invocationId :: int
  eventListeners :: bool
  timers :: "(nat, int \<times> string) jsmap"
  timerCount :: nat
  promiseCount :: nat
  trace :: "effect list"

text \<open>The constructor (lines 34--50).\<close>

definition newPort :: "int \<Rightarrow> int \<Rightarrow> nat \<Rightarrow> port_state" where
  "newPort tab frame p =
     \<lparr>otherTabId = tab, otherFrameId = frame, port = Some p, activeInvocations = [],
      invocationId = 0, eventListeners = False, timers = [], timerCount = 0,
      promiseCount = 0, trace = []\<rparr>"

text \<open>
  Modelled from the spec: \<^verbatim>\<open>EventListenerCollection\<close> and \<^verbatim>\<open>EventDispatcher\<close>
  are imported from \<^verbatim>\<open>core.js\<close>, which is not part of the sources at hand. Of
  the listeners that \<^verbatim>\<open>prepare\<close> (lines 65--69) adds to the transport, the model
  keeps whether they are installed; the spec's disconnect notification to the owning
  registry is the effect \<open>Trigger\<close>. \<^verbatim>\<open>prepare\<close> throws on a channel without
  transport.
\<close>

definition prepare :: "port_state \<Rightarrow> failure + port_state" where
  "prepare st =
     (if port st = None then Inl (Error ''Invalid state'')
      else Inr (st\<lparr>eventListeners := True\<rparr>))"

definition emit :: "effect \<Rightarrow> port_state \<Rightarrow> port_state" where
  "emit e st = st\<lparr>trace := trace st @ [e]\<rparr>"

text \<open>
  \<^verbatim>\<open>this._invocationId++\<close> on a JavaScript number: exact below \<open>2^53\<close>, and
  \<open>2^53 + 1\<close> rounds back to \<open>2^53\<close>. The counter starts at 0 and only ever
  grows by this step, so it never gets beyond \<open>2^53\<close>.
\<close>

definition js_increment :: "int \<Rightarrow> int" where
  "js_increment n = (if n < 9007199254740992 then n + 1 else n)"

text \<open>\<^verbatim>\<open>clearTimeout(h)\<close> and a successful \<^verbatim>\<open>setTimeout\<close>.\<close>

definition clearTimeout :: "nat \<Rightarrow> port_state \<Rightarrow> port_state" where
  "clearTimeout h st = st\<lparr>timers := Map_delete (timers st) h\<rparr>"

definition setTimeout :: "int \<Rightarrow> string \<Rightarrow> port_state \<Rightarrow> nat \<times> port_state" where
  "setTimeout i msg st =
     (timerCount st,
      st\<lparr>timers := Map_set (timers st) (timerCount st) (i, msg),
         timerCount := Suc (timerCount st)\<rparr>)"

text \<open>\<^verbatim>\<open>_onError\<close> (lines 222--236).\<close>

definition onError :: "int \<Rightarrow> unknown \<Rightarrow> port_state \<Rightarrow> port_state" where
  "onError i err st =
     (case Map_get (activeInvocations st) i of
        None \<Rightarrow> st
      | Some ivc \<Rightarrow>
          let e = (case err of
                     IsError f \<Rightarrow> f
                   | NotError s \<Rightarrow> Error (s @ '' ('' @ action ivc @ '')''));
              st1 = st\<lparr>activeInvocations := Map_delete (activeInvocations st) i\<rparr>;
              st2 = (case timer ivc of None \<Rightarrow> st1 | Some h \<Rightarrow> clearTimeout h st1)
          in emit (Reject (resolver ivc) e) st2)"

text \<open>
  \<^verbatim>\<open>invoke\<close> (lines 80--115). \<open>timeoutThrows\<close> tells whether the call of
  \<^verbatim>\<open>setTimeout\<close> throws, \<open>postThrows\<close> is the value \<^verbatim>\<open>postMessage\<close>
  throws, if it does.
\<close>

definition invoke ::
  "string \<Rightarrow> jsval \<Rightarrow> int option \<Rightarrow> int option \<Rightarrow> bool \<Rightarrow> unknown option
     \<Rightarrow> port_state \<Rightarrow> port_state" where
  "invoke act params ackTimeout respTimeout timeoutThrows postThrows st =
     (let p = promiseCount st;
          st0 = st\<lparr>promiseCount := Suc p\<rparr>
      in if port st = None
         then emit (Reject p (Error (''Port is disconnected ('' @ act @ '')''))) st0
         else
           let i = invocationId st;
               ivc = \<lparr>invocation_id = i, resolver = p, responseTimeout = respTimeout,
                      action = act, ack = False, timer = None\<rparr>;
               st1 = st0\<lparr>invocationId := js_increment i,
                         activeInvocations := Map_set (activeInvocations st) i ivc\<rparr>
           in if ackTimeout \<noteq> None \<and> timeoutThrows
              then onError i (NotError ''Failed to set timeout'') st1
              else
                let st2 = (if ackTimeout = None then st1
                           else
                             let (h, s) = setTimeout i ''Acknowledgement timeout'' st1
                             in s\<lparr>activeInvocations :=
                                    Map_set (activeInvocations s) i (ivc\<lparr>timer := Some h\<rparr>)\<rparr>);
                    st3 = emit (PostMessage (Invoke i act params) postThrows) st2
                in (case postThrows of
                      None \<Rightarrow> st3
                    | Some e \<Rightarrow> onError i e st3))"

text \<open>
  \<^verbatim>\<open>_onDisconnect\<close> (lines 125--133); \<^verbatim>\<open>disconnect\<close> (lines 118--120) only
  calls it. The loop runs over the keys of the table while \<^verbatim>\<open>_onError\<close> deletes
  the entry of the key just visited and adds none, so it visits the keys present at the
  start, in order.
\<close>

definition onDisconnect :: "port_state \<Rightarrow> port_state" where
  "onDisconnect st =
     (if port st = None then st
      else
        let st1 = st\<lparr>eventListeners := False, port := None\<rparr>;
            st2 = fold (\<lambda>i. onError i (NotError ''Disconnected''))
                       (Map_keys (activeInvocations st1)) st1
        in emit Trigger st2)"

definition disconnect :: "port_state \<Rightarrow> port_state" where
  "disconnect st = onDisconnect st"

text \<open>\<^verbatim>\<open>_onAck\<close> (lines 158--185).\<close>

definition onAck :: "int \<Rightarrow> bool \<Rightarrow> port_state \<Rightarrow> port_state" where
  "onAck i timeoutThrows st =
     (case Map_get (activeInvocations st) i of
        None \<Rightarrow>
          emit (LogWarn (Error (''Request '' @ string_of_int i
                                 @ '' not found for acknowledgement''))) st
      | Some ivc \<Rightarrow>
          if ack ivc
          then onError i (NotError (''Request '' @ string_of_int i
                                      @ '' already acknowledged'')) st
          else
            let st1 = (case timer ivc of None \<Rightarrow> st | Some h \<Rightarrow> clearTimeout h st);
                ivc2 = ivc\<lparr>ack := True, timer := None\<rparr>;
                st2 = st1\<lparr>activeInvocations := Map_set (activeInvocations st1) i ivc2\<rparr>
            in (case responseTimeout ivc of
                  None \<Rightarrow> st2
                | Some t \<Rightarrow>
                    if timeoutThrows
                    then onError i (NotError ''Failed to set timeout'') st2
                    else
                      let (h, s) = setTimeout i ''Response timeout'' st2
                      in s\<lparr>activeInvocations :=
                             Map_set (activeInvocations s) i (ivc2\<lparr>timer := Some h\<rparr>)\<rparr>))"

text \<open>\<^verbatim>\<open>_onResult\<close> (lines 191--216).\<close>

definition onResult :: "int \<Rightarrow> response \<Rightarrow> port_state \<Rightarrow> port_state" where
  "onResult i data st =
     (case Map_get (activeInvocations st) i of
        None \<Rightarrow> emit (LogWarn (Error (''Request '' @ string_of_int i @ '' not found''))) st
      | Some ivc \<Rightarrow>
          if \<not> ack ivc
          then onError i (NotError (''Request '' @ string_of_int i
                                      @ '' not acknowledged'')) st
          else
            let st1 = st\<lparr>activeInvocations := Map_delete (activeInvocations st) i\<rparr>;
                st2 = (case timer ivc of None \<Rightarrow> st1 | Some h \<Rightarrow> clearTimeout h st1)
            in (case error data of
                  Some d \<Rightarrow> emit (Reject (resolver ivc) (Deserialized d)) st2
                | None \<Rightarrow> emit (Resolve (resolver ivc) (result data)) st2))"

text \<open>
  \<^verbatim>\<open>_sendResponse\<close> (lines 264--271) and its three callers (lines 276--294).
  A throwing \<^verbatim>\<open>postMessage\<close> is swallowed.
\<close>

definition sendResponse :: "message \<Rightarrow> unknown option \<Rightarrow> port_state \<Rightarrow> port_state" where
  "sendResponse m postThrows st =
     (if port st = None then st else emit (PostMessage m postThrows) st)"

definition sendAck :: "int \<Rightarrow> unknown option \<Rightarrow> port_state \<Rightarrow> port_state" where
  "sendAck i postThrows st = sendResponse (Ack i) postThrows st"

definition sendResult :: "int \<Rightarrow> response \<Rightarrow> unknown option \<Rightarrow> port_state \<Rightarrow> port_state" where
  "sendResult i data postThrows st = sendResponse (Result i data) postThrows st"

definition sendError :: "int \<Rightarrow> string \<Rightarrow> unknown option \<Rightarrow> port_state \<Rightarrow> port_state" where
  "sendError i msg postThrows st =
     sendResponse (Result i \<lparr>error = Some (Serialized msg), result = JUndefined\<rparr>)
       postThrows st"

text \<open>
  Modelled from the spec: \<^verbatim>\<open>invokeMessageHandler\<close> is imported from
  \<^verbatim>\<open>core.js\<close>, which is not part of the sources at hand. By the spec the handler is
  invoked with a completion callback and either completes at once or signals that it
  will complete later. A handler is a function of the parameters that says which (it
  does not call back into the channel while it runs); \<open>invokeMessageHandler\<close> returns
  the payload handed to the callback during the call, if any, and the flag that the
  handler is asynchronous.
\<close>

datatype completion = Completes response | CompletesLater

type_synonym handler = "jsval \<Rightarrow> completion"

definition invokeMessageHandler :: "handler \<Rightarrow> jsval \<Rightarrow> response option \<times> bool" where
  "invokeMessageHandler h params =
     (case h params of
        Completes data \<Rightarrow> (Some data, False)
      | CompletesLater \<Rightarrow> (None, True))"

text \<open>
  \<^verbatim>\<open>_onInvoke\<close> (lines 245--259). \<open>ackThrows\<close> and \<open>resultThrows\<close> are what the
  first and the second call of \<^verbatim>\<open>postMessage\<close> throw, if they throw. The handler
  table is the one of the owning \<^verbatim>\<open>CrossFrameAPI\<close>, shared by reference.
\<close>

definition onInvoke ::
  "(string, handler) jsmap \<Rightarrow> int \<Rightarrow> string \<Rightarrow> jsval \<Rightarrow> unknown option \<Rightarrow> unknown option
     \<Rightarrow> port_state \<Rightarrow> bool \<times> port_state" where
  "onInvoke handlers i act params ackThrows resultThrows st =
     (let messageHandler = Map_get handlers act;
          st1 = emit (GetHandler act) st;
          st2 = sendAck i ackThrows st1
      in case messageHandler of
           None \<Rightarrow> (False, sendError i (''Unknown action: '' @ act) resultThrows st2)
         | Some h \<Rightarrow>
             let st3 = emit (CallHandler act params) st2
             in (case invokeMessageHandler h params of
                   (Some data, async) \<Rightarrow> (async, sendResult i data resultThrows st3)
                 | (None, async) \<Rightarrow> (async, st3)))"

text \<open>\<^verbatim>\<open>_onMessage\<close> (lines 138--151): a switch on the type with no default.\<close>

definition onMessage ::
  "(string, handler) jsmap \<Rightarrow> message \<Rightarrow> bool \<Rightarrow> unknown option \<Rightarrow> unknown option
     \<Rightarrow> port_state \<Rightarrow> port_state" where
  "onMessage handlers details timeoutThrows postThrows postThrows2 st =
     (case details of
        Invoke i act params \<Rightarrow>
          snd (onInvoke handlers i act params postThrows postThrows2 st)
      | Ack i \<Rightarrow> onAck i timeoutThrows st
      | Result i data \<Rightarrow> onResult i data st
      | Unrecognised t i \<Rightarrow> st)"

text \<open>
  An armed timeout expires: the runtime forgets it and runs its callback, which is a
  call of \<^verbatim>\<open>_onError\<close> (lines 102 and 180).
\<close>

definition timerExpires :: "nat \<Rightarrow> port_state \<Rightarrow> port_state" where
  "timerExpires h st =
     (case Map_get (timers st) h of
        None \<Rightarrow> st
      | Some (i, msg) \<Rightarrow> onError i (NotError msg) (clearTimeout h st))"

text \<open>
  What can happen to a channel: a call of \<^verbatim>\<open>prepare\<close> (which leaves the channel as it
  is when it throws), \<^verbatim>\<open>invoke\<close> or \<^verbatim>\<open>disconnect\<close>, an
  event of the transport (delivered to the listeners only while they are installed), an
  expiring timeout, and the late completion callback of an asynchronous handler
  (line 257).
\<close>

datatype event =
    CallPrepare
  | CallInvoke string jsval "int option" "int option" bool "unknown option"
  | CallDisconnect
  | PortDisconnects
  | PortMessage "(string, handler) jsmap" message bool "unknown option" "unknown option"
  | TimerExpires nat
  | HandlerCallback int response "unknown option"

definition step :: "event \<Rightarrow> port_state \<Rightarrow> port_state" where
  "step ev st =
     (case ev of
        CallPrepare \<Rightarrow> (case prepare st of Inl e \<Rightarrow> st | Inr st' \<Rightarrow> st')
      | CallInvoke act params a r tt pt \<Rightarrow> invoke act params a r tt pt st
      | CallDisconnect \<Rightarrow> disconnect st
      | PortDisconnects \<Rightarrow> (if eventListeners st then onDisconnect st else st)
      | PortMessage hs m tt pt pt2 \<Rightarrow>
          (if eventListeners st then onMessage hs m tt pt pt2 st else st)
      | TimerExpires h \<Rightarrow> timerExpires h st
      | HandlerCallback i data pt \<Rightarrow> sendResult i data pt st)"

definition run :: "event list \<Rightarrow> port_state \<Rightarrow> port_state" where
  "run evs st = fold step evs st"

text \<open>A channel as \<^verbatim>\<open>_setupCommPort\<close> leaves it: constructed and prepared.\<close>

definition openedPort :: "int \<Rightarrow> int \<Rightarrow> nat \<Rightarrow> port_state" where
  "openedPort tab frame p = (newPort tab frame p)\<lparr>eventListeners := True\<rparr>"

subsection \<open>Resolutions of a promise\<close>

text \<open>
  The promise an effect settles, if it is a call of \<^verbatim>\<open>resolve\<close> or
  \<^verbatim>\<open>reject\<close>; the promises settled along a trace, in order; how often a trace
  settles a promise; and whether an entry of the table still holds the closures of a
  promise.
\<close>

fun settled_by :: "effect \<Rightarrow> nat option" where
  "settled_by (Resolve p v) = Some p"
| "settled_by (Reject p e) = Some p"
| "settled_by (PostMessage m t) = None"
| "settled_by (LogWarn e) = None"
| "settled_by Trigger = None"
| "settled_by (GetHandler a) = None"
| "settled_by (CallHandler a v) = None"

definition settled :: "effect list \<Rightarrow> nat list" where
  "settled tr = List.map_filter settled_by tr"

definition settlements :: "effect list \<Rightarrow> nat \<Rightarrow> nat" where
  "settlements tr p = count_list (settled tr) p"

definition slots :: "port_state \<Rightarrow> (int, nat) jsmap" where
  "slots st = map (\<lambda>e. (fst e, resolver (snd e))) (activeInvocations st)"

definition tracked :: "port_state \<Rightarrow> nat \<Rightarrow> bool" where
  "tracked st p = (p \<in> snd ` set (slots st))"

text \<open>Whether \<open>a\<close> occurs in a trace before the first occurrence of \<open>b\<close>.\<close>

definition occurs_before :: "effect \<Rightarrow> effect \<Rightarrow> effect list \<Rightarrow> bool" where
  "occurs_before a b tr = (a \<in> set (takeWhile (\<lambda>e. e \<noteq> b) tr))"

section \<open>The registry: \<^verbatim>\<open>CrossFrameAPI\<close>\<close>

text \<open>
  The fields of the object (lines 298--313) that the methods below use. A
  \<^verbatim>\<open>CrossFrameAPIPort\<close> object is referred to by its position in \<open>objects\<close>,
  the list of the channels constructed so far, so that two channels with equal fields
  are still two objects. \<open>brokerRequests\<close> lists the calls of
  \<^verbatim>\<open>yomitan.api.openCrossFramePort\<close> made so far.
\<close>

record api_state =
  commPorts :: "(int, (int, nat) jsmap) jsmap"
  messageHandlers :: "(string, handler) jsmap"
  objects :: "port_state list"
  brokerRequests :: "(int \<times> int) list"

definition newAPI :: api_state where
  "newAPI = \<lparr>commPorts = [], messageHandlers = [], objects = [], brokerRequests = []\<rparr>"

text \<open>
  \<^verbatim>\<open>registerHandlers\<close> (lines 357--364): the loop stops at the first key that is
  present and throws; what it has set before stays set. The result is the error thrown,
  if any, and the table as the call leaves it.
\<close>

fun registerHandlers_loop ::
  "(string \<times> handler) list \<Rightarrow> (string, handler) jsmap
     \<Rightarrow> failure option \<times> (string, handler) jsmap" where
  "registerHandlers_loop [] m = (None, m)"
| "registerHandlers_loop ((key, val) # rest) m =
     (if Map_has m key
      then (Some (Error (''Handler '' @ key @ '' is already registered'')), m)
      else registerHandlers_loop rest (Map_set m key val))"

definition registerHandlers ::
  "(string \<times> handler) list \<Rightarrow> api_state \<Rightarrow> failure option \<times> api_state" where
  "registerHandlers hs api =
     (let (thrown, m) = registerHandlers_loop hs (messageHandlers api)
      in (thrown, api\<lparr>messageHandlers := m\<rparr>))"

text \<open>\<^verbatim>\<open>unregisterHandler\<close> (lines 370--372) returns what \<^verbatim>\<open>Map.delete\<close> returns.\<close>

definition unregisterHandler :: "string \<Rightarrow> api_state \<Rightarrow> bool \<times> api_state" where
  "unregisterHandler key api =
     (Map_has (messageHandlers api) key,
      api\<lparr>messageHandlers := Map_delete (messageHandlers api) key\<rparr>)"

text \<open>The two-level lookup of lines 420--426 and 437--443.\<close>

definition getCommPort :: "api_state \<Rightarrow> int \<Rightarrow> int \<Rightarrow> nat option" where
  "getCommPort api tab frame =
     (case Map_get (commPorts api) tab of
        None \<Rightarrow> None
      | Some tabPorts \<Rightarrow> Map_get tabPorts frame)"

text \<open>
  \<^verbatim>\<open>_setupCommPort\<close> (lines 453--464) constructs a channel, stores it under its
  key, whatever was there, and prepares it. It returns the new object.
\<close>

definition setupCommPort :: "int \<Rightarrow> int \<Rightarrow> nat \<Rightarrow> api_state \<Rightarrow> nat \<times> api_state" where
  "setupCommPort tab frame p api =
     (let commPort = length (objects api);
          tabPorts = (case Map_get (commPorts api) tab of None \<Rightarrow> [] | Some m \<Rightarrow> m);
          obj = (case prepare (newPort tab frame p) of Inl e \<Rightarrow> newPort tab frame p
                 | Inr st \<Rightarrow> st)
      in (commPort,
          api\<lparr>commPorts := Map_set (commPorts api) tab (Map_set tabPorts frame commPort),
              objects := objects api @ [obj]\<rparr>))"

text \<open>
  Modelled from the spec: \<^verbatim>\<open>parseJson\<close> is imported from \<^verbatim>\<open>core/json.js\<close>,
  which is not part of the sources at hand. By the spec the name of a transport carries
  a protocol marker, the group id and the sub-id, and a malformed name makes the
  connection attempt be dropped. \<open>port_name\<close> is the name as parsed, or malformed.
\<close>

datatype port_name = Malformed | Details string int int

text \<open>\<^verbatim>\<open>_onConnect\<close> (lines 379--397).\<close>

definition onConnect :: "port_name \<Rightarrow> nat \<Rightarrow> api_state \<Rightarrow> api_state" where
  "onConnect name p api =
     (case name of
        Malformed \<Rightarrow> api
      | Details n tab frame \<Rightarrow>
          if n \<noteq> ''cross-frame-communication-port'' then api
          else snd (setupCommPort tab frame p api))"

text \<open>
  The registry's \<^verbatim>\<open>_onDisconnect\<close> (lines 402--412), called with the channel
  that triggered the notification.
\<close>

definition api_onDisconnect :: "port_state \<Rightarrow> api_state \<Rightarrow> api_state" where
  "api_onDisconnect commPort api =
     (case Map_get (commPorts api) (otherTabId commPort) of
        None \<Rightarrow> api
      | Some tabPorts \<Rightarrow>
          let tabPorts' = Map_delete tabPorts (otherFrameId commPort)
          in if length tabPorts' = 0
             then api\<lparr>commPorts := Map_delete (commPorts api) (otherTabId commPort)\<rparr>
             else api\<lparr>commPorts := Map_set (commPorts api) (otherTabId commPort) tabPorts'\<rparr>)"

text \<open>
  \<^verbatim>\<open>_getOrCreateCommPort\<close> (lines 419--428) and \<^verbatim>\<open>_createCommPort\<close>
  (lines 434--445) are asynchronous: the caller runs up to the \<^verbatim>\<open>await\<close> of the
  broker's call in one piece, and runs on in one piece when that call has completed;
  anything else may happen to the registry in between. \<open>getOrCreateCommPort\<close> is the
  first piece: it returns the channel found, or has called the broker and waits.
  \<open>createCommPort_resume\<close> is the second piece, given the error the broker's call
  failed with, if it failed.
\<close>

datatype 'a async = Returned 'a | Awaiting

definition getOrCreateCommPort :: "int \<Rightarrow> int \<Rightarrow> api_state \<Rightarrow> nat async \<times> api_state" where
  "getOrCreateCommPort tab frame api =
     (case getCommPort api tab frame of
        Some commPort \<Rightarrow> (Returned commPort, api)
      | None \<Rightarrow> (Awaiting, api\<lparr>brokerRequests := brokerRequests api @ [(tab, frame)]\<rparr>))"

definition createCommPort_resume ::
  "failure option \<Rightarrow> int \<Rightarrow> int \<Rightarrow> api_state \<Rightarrow> failure + nat" where
  "createCommPort_resume brokerError tab frame api =
     (case brokerError of
        Some e \<Rightarrow> Inl e
      | None \<Rightarrow>
          (case getCommPort api tab frame of
             Some commPort \<Rightarrow> Inr commPort
           | None \<Rightarrow> Inl (Error ''Comm port didn't open'')))"

text \<open>
  A channel object of the registry loses its transport: the channel's own
  \<^verbatim>\<open>_onDisconnect\<close> runs, and if it emits the notification (it does unless the
  transport was gone already), the registry's \<^verbatim>\<open>_onDisconnect\<close> runs with the
  channel.
\<close>

definition channelDisconnects :: "nat \<Rightarrow> api_state \<Rightarrow> api_state" where
  "channelDisconnects c api =
     (if length (objects api) \<le> c then api
      else
        let commPort = objects api ! c;
            commPort' = onDisconnect commPort;
            api' = api\<lparr>objects := (objects api)[c := commPort']\<rparr>
        in if port commPort = None then api' else api_onDisconnect commPort' api')"

text \<open>
  Modelled from the spec: the broker \<^verbatim>\<open>yomitan.api.openCrossFramePort\<close> is not part
  of the sources at hand. By the spec a call of it asynchronously causes a transport to
  be established, which arrives at the registry, and a failure surfaces as a rejected
  future; so the broker enters as events. What can happen to the registry while callers
  wait: a call of \<^verbatim>\<open>_getOrCreateCommPort\<close>, a transport arriving at
  \<^verbatim>\<open>_onConnect\<close>, the completion of a call of the broker, which lets the caller
  that waited for it run on, and a channel losing its transport. \<open>api_step\<close> keeps,
  next to the registry, the outcomes handed to the callers so far.
\<close>

datatype api_event =
    CallGetOrCreate int int
  | Connects port_name nat
  | BrokerCompletes "failure option" int int
  | ChannelDisconnects nat

definition api_step ::
  "api_event \<Rightarrow> api_state \<times> (failure + nat) list \<Rightarrow> api_state \<times> (failure + nat) list" where
  "api_step ev s =
     (case ev of
        CallGetOrCreate tab frame \<Rightarrow>
          (case getOrCreateCommPort tab frame (fst s) of
             (Returned commPort, api) \<Rightarrow> (api, snd s @ [Inr commPort])
           | (Awaiting, api) \<Rightarrow> (api, snd s))
      | Connects name p \<Rightarrow> (onConnect name p (fst s), snd s)
      | BrokerCompletes brokerError tab frame \<Rightarrow>
          (fst s, snd s @ [createCommPort_resume brokerError tab frame (fst s)])
      | ChannelDisconnects c \<Rightarrow> (channelDisconnects c (fst s), snd s))"

definition api_run ::
  "api_event list \<Rightarrow> api_state \<times> (failure + nat) list" where
  "api_run evs = fold api_step evs (newAPI, [])"

text \<open>Whether all callers were handed the same outcome.\<close>

definition resolve_alike :: "(failure + nat) list \<Rightarrow> bool" where
  "resolve_alike outs = (case outs of [] \<Rightarrow> True | x # xs \<Rightarrow> list_all (\<lambda>y. y = x) xs)"

section \<open>Bookkeeping for the proofs\<close>

text \<open>
  The part of a channel that decides how often a promise is settled: the table with
  each invocation reduced to its promise, the promises settled so far, and the two
  counters. \<open>ledger_settle\<close>, \<open>ledger_open\<close> and \<open>ledger_refuse\<close> are what the
  methods of the channel do to it, and \<open>ledger_ok\<close> is what they keep true.
\<close>

type_synonym ledger = "(int, nat) jsmap \<times> nat list \<times> nat \<times> int"

definition ledger :: "port_state \<Rightarrow> ledger" where
  "ledger st = (slots st, settled (trace st), promiseCount st, invocationId st)"

definition ledger_settle :: "int \<Rightarrow> ledger \<Rightarrow> ledger" where
  "ledger_settle i l =
     (case l of (sl, se, pc, ic) \<Rightarrow>
        (Map_delete sl i, se @ (case Map_get sl i of None \<Rightarrow> [] | Some p \<Rightarrow> [p]), pc, ic))"

definition ledger_open :: "ledger \<Rightarrow> ledger" where
  "ledger_open l =
     (case l of (sl, se, pc, ic) \<Rightarrow> (Map_set sl ic pc, se, Suc pc, js_increment ic))"

definition ledger_refuse :: "ledger \<Rightarrow> ledger" where
  "ledger_refuse l = (case l of (sl, se, pc, ic) \<Rightarrow> (sl, se @ [pc], Suc pc, ic))"

definition ledger_ok :: "ledger \<Rightarrow> bool" where
  "ledger_ok l =
     (case l of (sl, se, pc, ic) \<Rightarrow>
        distinct (map fst sl) \<and> distinct (map snd sl)
        \<and> (\<forall>p \<in> snd ` set sl. p < pc \<and> count_list se p = 0)
        \<and> (\<forall>p. count_list se p \<le> 1)
        \<and> (\<forall>p. pc \<le> p \<longrightarrow> count_list se p = 0)
        \<and> (ic < 9007199254740992 \<longrightarrow>
              (\<forall>i \<in> fst ` set sl. i < ic)
              \<and> (\<forall>p. p < pc \<and> p \<notin> snd ` set sl \<longrightarrow> count_list se p = 1)))"

text \<open>
  The part of a channel that decides how often the disconnect notification is emitted:
  \<open>gate_ok\<close> says that it was emitted once if the transport is gone and never
  otherwise, and that a channel without transport tracks no invocation. \<open>calm\<close>
  relates a state to a later one when the step in between leaves all this alone.
\<close>

definition gate_ok :: "port_state \<Rightarrow> bool" where
  "gate_ok st \<longleftrightarrow>
     count_list (trace st) Trigger = (if port st = None then 1 else 0)
     \<and> (port st = None \<longrightarrow> activeInvocations st = [])"

definition calm :: "port_state \<Rightarrow> port_state \<Rightarrow> bool" where
  "calm st st' \<longleftrightarrow>
     port st' = port st
     \<and> count_list (trace st') Trigger = count_list (trace st) Trigger
     \<and> (activeInvocations st = [] \<longrightarrow> activeInvocations st' = [])"

subsection \<open>A handler table and a handler to try the registry on\<close>

definition sample_handler :: handler where
  "sample_handler params = Completes \<lparr>error = None, result = params\<rparr>"

definition sample_api :: api_state where
  "sample_api = newAPI\<lparr>messageHandlers := [(''a'', sample_handler)]\<rparr>"

section \<open>Facts about maps\<close>

lemma Map_get_Nil: "Map_get [] k = None"
  by (simp add: Map_get_def)

lemma Map_get_delete:
  "Map_get (Map_delete m k) k' = (if k' = k then None else Map_get m k')"
  by (induction m) (auto simp: Map_get_def Map_delete_def)

lemma Map_get_set:
  "Map_get (Map_set m k v) k' = (if k' = k then Some v else Map_get m k')"
  by (induction m) (auto simp: Map_get_def)

lemma Map_keys_set:
  "Map_keys (Map_set m k v) = (if k \<in> set (Map_keys m) then Map_keys m else Map_keys m @ [k])"
  by (induction m) (force simp: Map_keys_def)+

lemma Map_keys_delete: "Map_keys (Map_delete m k) = removeAll k (Map_keys m)"
  by (induction m) (auto simp: Map_keys_def Map_delete_def)

lemma Map_get_None_iff: "Map_get m k = None \<longleftrightarrow> k \<notin> set (Map_keys m)"
  by (simp add: Map_get_def Map_keys_def map_of_eq_None_iff)

lemma Map_has_get: "Map_has m k \<longleftrightarrow> Map_get m k \<noteq> None"
  by (simp add: Map_has_def Map_get_def)

lemma Map_set_absent:
  "Map_get m k = None \<Longrightarrow> Map_set m k v = m @ [(k, v)]"
  by (induction m) (auto simp: Map_get_def split: if_splits)

lemma Map_set_same: "Map_get m k = Some v \<Longrightarrow> Map_set m k v = m"
  by (induction m) (auto simp: Map_get_def split: if_splits)

lemma Map_delete_absent: "Map_get m k = None \<Longrightarrow> Map_delete m k = m"
  by (induction m) (auto simp: Map_get_def Map_delete_def split: if_splits)

lemma Map_delete_head:
  "k \<notin> fst ` set m \<Longrightarrow> Map_delete ((k, v) # m) k = m"
  by (induction m) (auto simp: Map_delete_def)

lemma Map_get_Some_mem: "Map_get m k = Some v \<Longrightarrow> (k, v) \<in> set m"
  by (simp add: Map_get_def map_of_SomeD)

lemma Map_delete_set:
  "distinct (map fst m) \<Longrightarrow> Map_get m k = Some v \<Longrightarrow> set (Map_delete m k) = set m - {(k, v)}"
  by (induction m) (force simp: Map_get_def Map_delete_def split: if_splits)+

lemma distinct_fst_Map_delete: "distinct (map fst m) \<Longrightarrow> distinct (map fst (Map_delete m k))"
  by (simp add: Map_delete_def distinct_map_filter)

lemma distinct_snd_Map_delete: "distinct (map snd m) \<Longrightarrow> distinct (map snd (Map_delete m k))"
  by (simp add: Map_delete_def distinct_map_filter)

lemma snd_image_remove:
  "distinct (map snd m) \<Longrightarrow> (k, v) \<in> set m \<Longrightarrow> snd ` (set m - {(k, v)}) = snd ` set m - {v}"
  by (auto simp: distinct_map inj_on_def image_iff) force+

lemma fst_set_Map_set: "fst ` set (Map_set m k v) = insert k (fst ` set m)"
  by (induction m) (force split: if_splits)+

lemma snd_set_Map_set: "snd ` set (Map_set m k v) \<subseteq> insert v (snd ` set m)"
  by (induction m) (force split: if_splits)+

lemma snd_set_Map_set_absent:
  "k \<notin> fst ` set m \<Longrightarrow> snd ` set (Map_set m k v) = insert v (snd ` set m)"
  by (induction m) (force split: if_splits)+

lemma distinct_fst_Map_set: "distinct (map fst m) \<Longrightarrow> distinct (map fst (Map_set m k v))"
  using Map_keys_set [of m k v] by (auto simp: Map_keys_def split: if_splits)

lemma distinct_snd_Map_set:
  "distinct (map snd m) \<Longrightarrow> v \<notin> snd ` set m \<Longrightarrow> distinct (map snd (Map_set m k v))"
proof (induction m)
  case Nil
  then show ?case by simp
next
  case (Cons a m)
  obtain k' v' where a: "a = (k', v')" by (cases a)
  show ?case
  proof (cases "k' = k")
    case True
    then show ?thesis using Cons.prems by (auto simp: a)
  next
    case False
    have "v' \<notin> snd ` set (Map_set m k v)"
      using Cons.prems snd_set_Map_set [of m k v] by (auto simp: a)
    then show ?thesis using Cons False by (auto simp: a)
  qed
qed

lemma count_list_snoc: "count_list (xs @ [x]) y = count_list xs y + (if x = y then 1 else 0)"
  by (induction xs) auto

section \<open>The small steps of a channel\<close>

lemma trace_emit: "trace (emit e st) = trace st @ [e]"
  by (simp add: emit_def)

lemma trace_clearTimeout: "trace (clearTimeout h st) = trace st"
  by (simp add: clearTimeout_def)

lemma activeInvocations_emit: "activeInvocations (emit e st) = activeInvocations st"
  by (simp add: emit_def)

lemma activeInvocations_clearTimeout: "activeInvocations (clearTimeout h st) = activeInvocations st"
  by (simp add: clearTimeout_def)

lemma port_emit: "port (emit e st) = port st"
  by (simp add: emit_def)

lemma trace_sendResponse:
  "port st \<noteq> None \<Longrightarrow> trace (sendResponse m t st) = trace st @ [PostMessage m t]"
  by (simp add: sendResponse_def trace_emit)

lemma port_sendResponse: "port (sendResponse m t st) = port st"
  by (simp add: sendResponse_def port_emit)

lemma onError_tracked:
  assumes "Map_get (activeInvocations st) i = Some ivc"
  shows "trace (onError i err st) =
           trace st @ [Reject (resolver ivc)
             (case err of IsError f \<Rightarrow> f | NotError s \<Rightarrow> Error (s @ '' ('' @ action ivc @ '')''))]"
    and "activeInvocations (onError i err st) = Map_delete (activeInvocations st) i"
  using assms
  by (simp_all add: onError_def Let_def trace_emit trace_clearTimeout
        activeInvocations_emit activeInvocations_clearTimeout split: option.splits)

lemma activeInvocations_onError:
  "activeInvocations (onError i err st) = Map_delete (activeInvocations st) i"
  by (cases "Map_get (activeInvocations st) i")
     (simp_all add: onError_def Let_def Map_delete_absent emit_def clearTimeout_def
        split: option.splits)

lemma port_onError: "port (onError i err st) = port st"
  by (simp add: onError_def Let_def emit_def clearTimeout_def split: option.splits)

lemma triggers_onError:
  "count_list (trace (onError i err st)) Trigger = count_list (trace st) Trigger"
  by (simp add: onError_def Let_def emit_def clearTimeout_def count_list_snoc
        split: option.splits)

lemma Map_get_onError: "Map_get (activeInvocations (onError i err st)) i = None"
  by (cases "Map_get (activeInvocations st) i")
     (simp_all add: onError_def Let_def Map_get_delete emit_def clearTimeout_def
        split: option.splits)

lemma Map_get_onResult: "Map_get (activeInvocations (onResult i data st)) i = None"
  by (cases "Map_get (activeInvocations st) i")
     (simp_all add: onResult_def Let_def Map_get_delete Map_get_onError emit_def clearTimeout_def
        split: option.splits)

section \<open>The handler table and the registry\<close>

lemma registerHandlers_loop_keeps:
  "Map_has m key \<Longrightarrow> Map_get (snd (registerHandlers_loop hs m)) key = Map_get m key"
proof (induction hs arbitrary: m)
  case Nil
  then show ?case by simp
next
  case (Cons a hs)
  obtain k v where a: "a = (k, v)" by (cases a)
  show ?case
  proof (cases "Map_has m k")
    case True
    then show ?thesis by (simp add: a)
  next
    case False
    with Cons.prems have ne: "key \<noteq> k" by auto
    have "Map_has (Map_set m k v) key"
      using Cons.prems ne by (simp add: Map_has_get Map_get_set)
    from Cons.IH [OF this] show ?thesis
      using False ne by (simp add: a Map_get_set)
  qed
qed

lemma registerHandlers_loop_throws:
  "Map_has m key \<Longrightarrow> key \<in> fst ` set hs \<Longrightarrow> fst (registerHandlers_loop hs m) \<noteq> None"
proof (induction hs arbitrary: m)
  case Nil
  then show ?case by simp
next
  case (Cons a hs)
  obtain k v where a: "a = (k, v)" by (cases a)
  show ?case
  proof (cases "Map_has m k")
    case True
    then show ?thesis by (simp add: a)
  next
    case False
    with Cons.prems have ne: "key \<noteq> k" by auto
    have h: "Map_has (Map_set m k v) key"
      using Cons.prems ne by (simp add: Map_has_get Map_get_set)
    have "key \<in> fst ` set hs" using Cons.prems ne by (auto simp: a)
    from Cons.IH [OF h this] show ?thesis
      using False by (simp add: a)
  qed
qed

lemma registerHandlers_loop_prefix:
  assumes "k < length hs"
    and "distinct (map fst (take k hs))"
    and "\<forall>key \<in> set (map fst (take k hs)). \<not> Map_has m key"
    and "Map_has m (fst (hs ! k)) \<or> fst (hs ! k) \<in> set (map fst (take k hs))"
  shows "registerHandlers_loop hs m =
           (Some (Error (''Handler '' @ fst (hs ! k) @ '' is already registered'')),
            m @ take k hs)"
  using assms
proof (induction hs arbitrary: k m)
  case Nil
  then show ?case by simp
next
  case (Cons a hs)
  obtain key v where a: "a = (key, v)" by (cases a)
  show ?case
  proof (cases k)
    case 0
    with Cons.prems show ?thesis by (simp add: a)
  next
    case (Suc j)
    from Cons.prems Suc have absent: "\<not> Map_has m key" by (simp add: a)
    then have set_eq: "Map_set m key v = m @ [(key, v)]"
      by (simp add: Map_has_get Map_set_absent)
    have 1: "j < length hs" using Cons.prems Suc by simp
    have 2: "distinct (map fst (take j hs))" using Cons.prems Suc by simp
    have 3: "\<forall>key' \<in> set (map fst (take j hs)). \<not> Map_has (Map_set m key v) key'"
      using Cons.prems Suc by (auto simp: a Map_has_get Map_get_set)
    have 4: "Map_has (Map_set m key v) (fst (hs ! j)) \<or> fst (hs ! j) \<in> set (map fst (take j hs))"
      using Cons.prems Suc by (auto simp: a Map_has_get Map_get_set)
    from Cons.IH [OF 1 2 3 4] show ?thesis
      using absent Suc by (simp add: a set_eq)
  qed
qed

lemma registerHandlers_fst:
  "fst (registerHandlers hs api) = fst (registerHandlers_loop hs (messageHandlers api))"
  by (simp add: registerHandlers_def case_prod_beta)

lemma registerHandlers_snd:
  "messageHandlers (snd (registerHandlers hs api)) =
     snd (registerHandlers_loop hs (messageHandlers api))"
  by (simp add: registerHandlers_def case_prod_beta)

lemma getCommPort_setup:
  "getCommPort (snd (setupCommPort tab frame p api)) tab' frame' =
     (if tab' = tab \<and> frame' = frame then Some (length (objects api))
      else getCommPort api tab' frame')"
  by (simp add: getCommPort_def setupCommPort_def Let_def Map_get_set Map_get_Nil
        split: option.splits)

section \<open>Promises are settled at most once\<close>

subsection \<open>What keeps the ledger in order\<close>

lemma ledger_okI:
  assumes "distinct (map fst sl)" and "distinct (map snd sl)"
    and "\<And>p. p \<in> snd ` set sl \<Longrightarrow> p < pc"
    and "\<And>p. p \<in> snd ` set sl \<Longrightarrow> count_list se p = 0"
    and "\<And>p. count_list se p \<le> 1"
    and "\<And>p. pc \<le> p \<Longrightarrow> count_list se p = 0"
    and "\<And>i. ic < 9007199254740992 \<Longrightarrow> i \<in> fst ` set sl \<Longrightarrow> i < ic"
    and "\<And>p. ic < 9007199254740992 \<Longrightarrow> p < pc \<Longrightarrow> p \<notin> snd ` set sl
           \<Longrightarrow> count_list se p = 1"
  shows "ledger_ok (sl, se, pc, ic)"
  unfolding ledger_ok_def using assms by simp

lemma ledger_okD:
  assumes "ledger_ok (sl, se, pc, ic)"
  shows "distinct (map fst sl)" and "distinct (map snd sl)"
    and "\<And>p. p \<in> snd ` set sl \<Longrightarrow> p < pc"
    and "\<And>p. p \<in> snd ` set sl \<Longrightarrow> count_list se p = 0"
    and "\<And>p. count_list se p \<le> 1"
    and "\<And>p. pc \<le> p \<Longrightarrow> count_list se p = 0"
    and "\<And>i. ic < 9007199254740992 \<Longrightarrow> i \<in> fst ` set sl \<Longrightarrow> i < ic"
    and "\<And>p. ic < 9007199254740992 \<Longrightarrow> p < pc \<Longrightarrow> p \<notin> snd ` set sl
           \<Longrightarrow> count_list se p = 1"
  using assms unfolding ledger_ok_def by auto

lemma ledger_ok_settle:
  assumes "ledger_ok l"
  shows "ledger_ok (ledger_settle i l)"
proof -
  obtain sl se pc ic where l: "l = (sl, se, pc, ic)" by (cases l)
  note D = ledger_okD [OF assms [unfolded l]]
  show ?thesis
  proof (cases "Map_get sl i")
    case None
    then show ?thesis using assms by (simp add: l ledger_settle_def Map_delete_absent)
  next
    case (Some p)
    have mem: "(i, p) \<in> set sl" using Some by (rule Map_get_Some_mem)
    have s: "set (Map_delete sl i) = set sl - {(i, p)}"
      using D(1) Some by (rule Map_delete_set)
    have r: "snd ` set (Map_delete sl i) = snd ` set sl - {p}"
      using s snd_image_remove [OF D(2) mem] by simp
    have k: "fst ` set (Map_delete sl i) \<subseteq> fst ` set sl"
      using s by auto
    have pin: "p \<in> snd ` set sl" using mem by force
    have "ledger_ok (Map_delete sl i, se @ [p], pc, ic)"
    proof (rule ledger_okI)
      show "distinct (map fst (Map_delete sl i))" using D(1) by (rule distinct_fst_Map_delete)
      show "distinct (map snd (Map_delete sl i))" using D(2) by (rule distinct_snd_Map_delete)
      show "q < pc" if "q \<in> snd ` set (Map_delete sl i)" for q
        using that D(3) by (simp add: r)
      show "count_list (se @ [p]) q = 0" if "q \<in> snd ` set (Map_delete sl i)" for q
        using that D(4) by (simp add: r count_list_snoc)
      show "count_list (se @ [p]) q \<le> 1" for q
        using D(5) [of q] D(4) [OF pin] by (auto simp: count_list_snoc)
      show "count_list (se @ [p]) q = 0" if "pc \<le> q" for q
        using that D(6) [of q] D(3) [OF pin] by (simp add: count_list_snoc)
      show "j < ic" if "ic < 9007199254740992" "j \<in> fst ` set (Map_delete sl i)" for j
        using that D(7) k by blast
      show "count_list (se @ [p]) q = 1"
        if "ic < 9007199254740992" "q < pc" "q \<notin> snd ` set (Map_delete sl i)" for q
      proof (cases "q = p")
        case True
        then show ?thesis using D(4) [OF pin] by (simp add: count_list_snoc)
      next
        case False
        then have "q \<notin> snd ` set sl" using that(3) by (simp add: r)
        then show ?thesis using D(8) [OF that(1,2)] False by (simp add: count_list_snoc)
      qed
    qed
    then show ?thesis by (simp add: l ledger_settle_def Some)
  qed
qed

lemma ledger_ok_refuse:
  assumes "ledger_ok l"
  shows "ledger_ok (ledger_refuse l)"
proof -
  obtain sl se pc ic where l: "l = (sl, se, pc, ic)" by (cases l)
  note D = ledger_okD [OF assms [unfolded l]]
  have "ledger_ok (sl, se @ [pc], Suc pc, ic)"
  proof (rule ledger_okI)
    show "distinct (map fst sl)" by (rule D(1))
    show "distinct (map snd sl)" by (rule D(2))
    show "q < Suc pc" if "q \<in> snd ` set sl" for q
      using D(3) [OF that] by simp
    show "count_list (se @ [pc]) q = 0" if "q \<in> snd ` set sl" for q
      using D(3) [OF that] D(4) [OF that] by (simp add: count_list_snoc)
    show "count_list (se @ [pc]) q \<le> 1" for q
      using D(5) [of q] D(6) [of pc] by (auto simp: count_list_snoc)
    show "count_list (se @ [pc]) q = 0" if "Suc pc \<le> q" for q
      using that D(6) [of q] by (simp add: count_list_snoc)
    show "j < ic" if "ic < 9007199254740992" "j \<in> fst ` set sl" for j
      using that by (rule D(7))
    show "count_list (se @ [pc]) q = 1"
      if "ic < 9007199254740992" "q < Suc pc" "q \<notin> snd ` set sl" for q
    proof (cases "q = pc")
      case True
      then show ?thesis using D(6) [of pc] by (simp add: count_list_snoc)
    next
      case False
      then have "q < pc" using that(2) by simp
      from D(8) [OF that(1) this that(3)] False show ?thesis by (simp add: count_list_snoc)
    qed
  qed
  then show ?thesis by (simp add: l ledger_refuse_def)
qed

lemma ledger_ok_open:
  assumes "ledger_ok l"
  shows "ledger_ok (ledger_open l)"
proof -
  obtain sl se pc ic where l: "l = (sl, se, pc, ic)" by (cases l)
  note D = ledger_okD [OF assms [unfolded l]]
  have fresh: "pc \<notin> snd ` set sl" using D(3) [of pc] by auto
  have "ledger_ok (Map_set sl ic pc, se, Suc pc, js_increment ic)"
  proof (rule ledger_okI)
    show "distinct (map fst (Map_set sl ic pc))" using D(1) by (rule distinct_fst_Map_set)
    show "distinct (map snd (Map_set sl ic pc))" using D(2) fresh by (rule distinct_snd_Map_set)
    show "q < Suc pc" if "q \<in> snd ` set (Map_set sl ic pc)" for q
    proof -
      from that snd_set_Map_set [of sl ic pc] have "q = pc \<or> q \<in> snd ` set sl" by blast
      then show ?thesis
      proof
        assume "q = pc"
        then show ?thesis by simp
      next
        assume "q \<in> snd ` set sl"
        from D(3) [OF this] show ?thesis by simp
      qed
    qed
    show "count_list se q = 0" if "q \<in> snd ` set (Map_set sl ic pc)" for q
    proof -
      from that snd_set_Map_set [of sl ic pc] have "q = pc \<or> q \<in> snd ` set sl" by blast
      then show ?thesis
      proof
        assume "q = pc"
        then show ?thesis using D(6) [of pc] by simp
      next
        assume "q \<in> snd ` set sl"
        from D(4) [OF this] show ?thesis by simp
      qed
    qed
    show "count_list se q \<le> 1" for q by (rule D(5))
    show "count_list se q = 0" if "Suc pc \<le> q" for q
      using that D(6) [of q] by simp
    show "j < js_increment ic"
      if "js_increment ic < 9007199254740992" "j \<in> fst ` set (Map_set sl ic pc)" for j
    proof -
      from that(1) have small: "ic < 9007199254740992"
        by (simp add: js_increment_def split: if_splits)
      then have inc: "js_increment ic = ic + 1" by (simp add: js_increment_def)
      from that(2) have "j = ic \<or> j \<in> fst ` set sl" by (simp add: fst_set_Map_set)
      then show ?thesis
      proof
        assume "j = ic"
        then show ?thesis using inc by simp
      next
        assume "j \<in> fst ` set sl"
        from D(7) [OF small this] show ?thesis using inc by simp
      qed
    qed
    show "count_list se q = 1"
      if "js_increment ic < 9007199254740992" "q < Suc pc"
        "q \<notin> snd ` set (Map_set sl ic pc)" for q
    proof -
      from that(1) have small: "ic < 9007199254740992"
        by (simp add: js_increment_def split: if_splits)
      have "ic \<notin> fst ` set sl" using D(7) [OF small, of ic] by auto
      then have eq: "snd ` set (Map_set sl ic pc) = insert pc (snd ` set sl)"
        by (rule snd_set_Map_set_absent)
      from that(3) have "q \<noteq> pc" and "q \<notin> snd ` set sl" by (simp_all add: eq)
      with that(2) D(8) [OF small, of q] show ?thesis by simp
    qed
  qed
  then show ?thesis by (simp add: l ledger_open_def)
qed

lemma ledger_ok_fold_settle: "ledger_ok l \<Longrightarrow> ledger_ok (fold ledger_settle ks l)"
  by (induction ks arbitrary: l) (simp_all add: ledger_ok_settle)

subsection \<open>What the methods do to the ledger\<close>

lemma settled_snoc:
  "settled (tr @ [e]) = settled tr @ (case settled_by e of None \<Rightarrow> [] | Some p \<Rightarrow> [p])"
  by (simp add: settled_def List.map_filter_def split: option.splits)

lemma slots_Map_delete:
  "map (\<lambda>e. (fst e, resolver (snd e))) (Map_delete m i) =
     Map_delete (map (\<lambda>e. (fst e, resolver (snd e))) m) i"
  by (induction m) (auto simp: Map_delete_def)

lemma slots_Map_set:
  "map (\<lambda>e. (fst e, resolver (snd e))) (Map_set m i v) =
     Map_set (map (\<lambda>e. (fst e, resolver (snd e))) m) i (resolver v)"
  by (induction m) auto

lemma slots_Map_get:
  "Map_get (map (\<lambda>e. (fst e, resolver (snd e))) m) i = map_option resolver (Map_get m i)"
  by (induction m) (auto simp: Map_get_def)

lemma ledger_clearTimeout: "ledger (clearTimeout h st) = ledger st"
  by (simp add: ledger_def slots_def clearTimeout_def)

lemma ledger_emit_quiet: "settled_by e = None \<Longrightarrow> ledger (emit e st) = ledger st"
  by (simp add: ledger_def slots_def emit_def settled_snoc)

lemma ledger_settle_absent: "Map_get (slots st) i = None \<Longrightarrow> ledger_settle i (ledger st) = ledger st"
  by (simp add: ledger_settle_def ledger_def Map_delete_absent)

lemma settled_of_ledger: "settled (trace st) = fst (snd (ledger st))"
  by (simp add: ledger_def)

lemma ledger_onError: "ledger (onError i e st) = ledger_settle i (ledger st)"
proof (cases "Map_get (activeInvocations st) i")
  case None
  then show ?thesis
    by (simp add: onError_def ledger_settle_def ledger_def slots_def slots_Map_get
          Map_delete_absent)
next
  case (Some ivc)
  then show ?thesis
    by (simp add: onError_def Let_def ledger_settle_def ledger_def slots_def slots_Map_get
          slots_Map_delete emit_def clearTimeout_def settled_snoc split: option.splits)
qed

lemma ledger_onResult: "ledger (onResult i d st) = ledger_settle i (ledger st)"
proof (cases "Map_get (activeInvocations st) i")
  case None
  then show ?thesis
    by (simp add: onResult_def ledger_emit_quiet)
       (simp add: ledger_settle_def ledger_def slots_def slots_Map_get Map_delete_absent)
next
  case (Some ivc)
  show ?thesis
  proof (cases "ack ivc")
    case False
    then show ?thesis using Some by (simp add: onResult_def ledger_onError)
  next
    case True
    then show ?thesis using Some
      by (simp add: onResult_def Let_def ledger_settle_def ledger_def slots_def slots_Map_get
            slots_Map_delete emit_def clearTimeout_def settled_snoc split: option.splits)
  qed
qed

lemma ledger_ack_update:
  assumes "Map_get (activeInvocations st) i = Some ivc" and "resolver ivc' = resolver ivc"
  shows "ledger (st\<lparr>activeInvocations := Map_set (activeInvocations st) i ivc'\<rparr>) = ledger st"
proof -
  have "Map_get (slots st) i = Some (resolver ivc')"
    using assms by (simp add: slots_def slots_Map_get)
  then have "Map_set (slots st) i (resolver ivc') = slots st" by (rule Map_set_same)
  then show ?thesis by (simp add: ledger_def slots_def slots_Map_set)
qed

lemma ledger_onAck:
  "ledger (onAck i tt st) = ledger st \<or> ledger (onAck i tt st) = ledger_settle i (ledger st)"
proof (cases "Map_get (activeInvocations st) i")
  case None
  then show ?thesis by (simp add: onAck_def ledger_emit_quiet)
next
  case (Some ivc)
  show ?thesis
  proof (cases "ack ivc")
    case True
    then show ?thesis using Some by (simp add: onAck_def ledger_onError)
  next
    case False
    define st1 where "st1 = (case timer ivc of None \<Rightarrow> st | Some h \<Rightarrow> clearTimeout h st)"
    define ivc2 where "ivc2 = ivc\<lparr>ack := True, timer := None\<rparr>"
    define st2 where "st2 = st1\<lparr>activeInvocations := Map_set (activeInvocations st1) i ivc2\<rparr>"
    have g1: "Map_get (activeInvocations st1) i = Some ivc"
      using Some by (simp add: st1_def clearTimeout_def split: option.splits)
    have l1: "ledger st1 = ledger st"
      by (simp add: st1_def ledger_clearTimeout split: option.splits)
    have l2: "ledger st2 = ledger st"
      unfolding st2_def using ledger_ack_update [OF g1, of ivc2] l1 by (simp add: ivc2_def)
    have g2: "Map_get (activeInvocations st2) i = Some ivc2"
      by (simp add: st2_def Map_get_set)
    have unfold: "onAck i tt st =
        (case responseTimeout ivc of
           None \<Rightarrow> st2
         | Some t \<Rightarrow>
             if tt then onError i (NotError ''Failed to set timeout'') st2
             else
               let (h, s) = setTimeout i ''Response timeout'' st2
               in s\<lparr>activeInvocations :=
                      Map_set (activeInvocations s) i (ivc2\<lparr>timer := Some h\<rparr>)\<rparr>)"
      unfolding st1_def st2_def ivc2_def using Some False by (simp add: onAck_def Let_def)
    show ?thesis
    proof (cases "responseTimeout ivc")
      case None
      have "onAck i tt st = st2" unfolding unfold using None by simp
      then show ?thesis by (simp add: l2)
    next
      case (Some t)
      show ?thesis
      proof (cases tt)
        case True
        have "onAck i tt st = onError i (NotError ''Failed to set timeout'') st2"
          unfolding unfold using Some True by simp
        then show ?thesis by (simp only: ledger_onError l2) simp
      next
        case False
        define s where "s = snd (setTimeout i ''Response timeout'' st2)"
        have gs: "Map_get (activeInvocations s) i = Some ivc2"
          using g2 by (simp add: s_def setTimeout_def)
        have ls: "ledger s = ledger st2"
          by (simp add: s_def setTimeout_def ledger_def slots_def)
        have "ledger (s\<lparr>activeInvocations :=
                 Map_set (activeInvocations s) i (ivc2\<lparr>timer := Some (timerCount st2)\<rparr>)\<rparr>) =
              ledger s"
          using ledger_ack_update [OF gs] by simp
        moreover have "onAck i tt st =
            s\<lparr>activeInvocations :=
                 Map_set (activeInvocations s) i (ivc2\<lparr>timer := Some (timerCount st2)\<rparr>)\<rparr>"
          unfolding unfold s_def using Some False by (simp add: setTimeout_def)
        ultimately show ?thesis using ls l2 by simp
      qed
    qed
  qed
qed

lemma ledger_invoke:
  "ledger (invoke act params ackTimeout respTimeout tt pt st) = ledger_refuse (ledger st)
   \<or> ledger (invoke act params ackTimeout respTimeout tt pt st) = ledger_open (ledger st)
   \<or> ledger (invoke act params ackTimeout respTimeout tt pt st) =
        ledger_settle (invocationId st) (ledger_open (ledger st))"
proof (cases "port st = None")
  case True
  then have "ledger (invoke act params ackTimeout respTimeout tt pt st) = ledger_refuse (ledger st)"
    by (simp add: invoke_def Let_def ledger_def ledger_refuse_def slots_def emit_def settled_snoc)
  then show ?thesis by simp
next
  case False
  then obtain y where live: "port st = Some y" by auto
  define i where "i = invocationId st"
  define ivc where "ivc = \<lparr>invocation_id = i, resolver = promiseCount st,
      responseTimeout = respTimeout, action = act, ack = False, timer = None\<rparr>"
  define st1 where "st1 = st\<lparr>promiseCount := Suc (promiseCount st),
      invocationId := js_increment i,
      activeInvocations := Map_set (activeInvocations st) i ivc\<rparr>"
  define st2 where "st2 = (if ackTimeout = None then st1
      else (snd (setTimeout i ''Acknowledgement timeout'' st1))
             \<lparr>activeInvocations :=
                Map_set (activeInvocations (snd (setTimeout i ''Acknowledgement timeout'' st1))) i
                  (ivc\<lparr>timer := Some (fst (setTimeout i ''Acknowledgement timeout'' st1))\<rparr>)\<rparr>)"
  define st3 where "st3 = emit (PostMessage (Invoke i act params) pt) st2"
  have l1: "ledger st1 = ledger_open (ledger st)"
    by (simp add: st1_def ivc_def i_def ledger_def ledger_open_def slots_def slots_Map_set)
  have g1: "Map_get (activeInvocations st1) i = Some ivc"
    by (simp add: st1_def Map_get_set)
  have gs: "Map_get (activeInvocations (snd (setTimeout i ''Acknowledgement timeout'' st1))) i
              = Some ivc"
    using g1 by (simp add: setTimeout_def)
  have ls: "ledger (snd (setTimeout i ''Acknowledgement timeout'' st1)) = ledger st1"
    by (simp add: setTimeout_def ledger_def slots_def)
  have l2: "ledger st2 = ledger st1"
    unfolding st2_def using ledger_ack_update [OF gs] ls by simp
  have l3: "ledger st3 = ledger st1"
    by (simp add: st3_def ledger_emit_quiet l2)
  have unfold: "invoke act params ackTimeout respTimeout tt pt st =
      (if ackTimeout \<noteq> None \<and> tt then onError i (NotError ''Failed to set timeout'') st1
       else (case pt of None \<Rightarrow> st3 | Some e \<Rightarrow> onError i e st3))"
    unfolding st3_def st2_def st1_def ivc_def i_def using live
    by (simp add: invoke_def Let_def case_prod_beta split: option.splits)
  show ?thesis
  proof (cases "ackTimeout \<noteq> None \<and> tt")
    case True
    then have "invoke act params ackTimeout respTimeout tt pt st =
        onError i (NotError ''Failed to set timeout'') st1"
      unfolding unfold by simp
    then show ?thesis by (simp only: ledger_onError l1 i_def) simp
  next
    case nothrow: False
    show ?thesis
    proof (cases pt)
      case None
      then have "invoke act params ackTimeout respTimeout tt pt st = st3"
        unfolding unfold using nothrow by auto
      then show ?thesis by (simp only: l3 l1) simp
    next
      case (Some e)
      then have "invoke act params ackTimeout respTimeout tt pt st = onError i e st3"
        unfolding unfold using nothrow by auto
      then show ?thesis by (simp only: ledger_onError l3 l1 i_def) simp
    qed
  qed
qed

lemma ledger_timerExpires:
  "ledger (timerExpires h st) = ledger st
   \<or> (\<exists>i. ledger (timerExpires h st) = ledger_settle i (ledger st))"
  by (cases "Map_get (timers st) h")
     (auto simp: timerExpires_def ledger_onError ledger_clearTimeout)

lemma ledger_fold_onError:
  "ledger (fold (\<lambda>i. onError i e) ks st) = fold ledger_settle ks (ledger st)"
  by (induction ks arbitrary: st) (simp_all add: ledger_onError)

lemma ledger_onDisconnect:
  "\<exists>ks. ledger (onDisconnect st) = fold ledger_settle ks (ledger st)"
proof (cases "port st = None")
  case True
  then have "ledger (onDisconnect st) = fold ledger_settle [] (ledger st)"
    by (simp add: onDisconnect_def)
  then show ?thesis by blast
next
  case False
  then obtain y where live: "port st = Some y" by auto
  have "ledger (st\<lparr>eventListeners := False, port := None\<rparr>) = ledger st"
    by (simp add: ledger_def slots_def)
  then have "ledger (onDisconnect st) =
      fold ledger_settle (Map_keys (activeInvocations st)) (ledger st)"
    using live by (simp add: onDisconnect_def Let_def ledger_emit_quiet ledger_fold_onError)
  then show ?thesis by blast
qed

lemma ledger_sendResponse: "ledger (sendResponse m t st) = ledger st"
  by (simp add: sendResponse_def ledger_emit_quiet)

lemma ledger_onInvoke: "ledger (snd (onInvoke hs i act params at rt st)) = ledger st"
  by (simp add: onInvoke_def Let_def sendAck_def sendError_def sendResult_def
        ledger_sendResponse ledger_emit_quiet invokeMessageHandler_def
        split: option.splits completion.splits)

lemma ledger_ok_step:
  assumes "ledger_ok (ledger st)"
  shows "ledger_ok (ledger (step ev st))"
proof (cases ev)
  case CallPrepare
  have "ledger (st\<lparr>eventListeners := True\<rparr>) = ledger st"
    by (simp add: ledger_def slots_def)
  then show ?thesis using assms by (simp add: step_def CallPrepare prepare_def)
next
  case (CallInvoke act params a r tt pt)
  then show ?thesis
    using assms ledger_invoke [of act params a r tt pt st]
    by (auto simp: step_def ledger_ok_settle ledger_ok_open ledger_ok_refuse)
next
  case CallDisconnect
  then show ?thesis
    using assms ledger_onDisconnect [of st]
    by (auto simp: step_def disconnect_def ledger_ok_fold_settle)
next
  case PortDisconnects
  then show ?thesis
    using assms ledger_onDisconnect [of st]
    by (auto simp: step_def ledger_ok_fold_settle)
next
  case (PortMessage hs m tt pt pt2)
  show ?thesis
  proof (cases m)
    case (Invoke i act params)
    then show ?thesis using assms PortMessage
      by (simp add: step_def onMessage_def ledger_onInvoke)
  next
    case (Ack i)
    then show ?thesis using assms PortMessage ledger_onAck [of i tt st]
      by (auto simp: step_def onMessage_def ledger_ok_settle)
  next
    case (Result i data)
    then show ?thesis using assms PortMessage
      by (simp add: step_def onMessage_def ledger_onResult ledger_ok_settle)
  next
    case (Unrecognised t i)
    then show ?thesis using assms PortMessage by (simp add: step_def onMessage_def)
  qed
next
  case (TimerExpires h)
  then show ?thesis
    using assms ledger_timerExpires [of h st]
    by (auto simp: step_def ledger_ok_settle)
next
  case (HandlerCallback i data pt)
  then show ?thesis using assms by (simp add: step_def sendResult_def ledger_sendResponse)
qed

lemma ledger_ok_run:
  "ledger_ok (ledger st) \<Longrightarrow> ledger_ok (ledger (run evs st))"
  unfolding run_def by (induction evs arbitrary: st) (simp_all add: ledger_ok_step)

lemma ledger_ok_newPort: "ledger_ok (ledger (newPort tab frame p))"
  by (simp add: ledger_ok_def ledger_def slots_def newPort_def settled_def List.map_filter_def)

section \<open>The disconnect notification\<close>

lemma calm_refl: "calm st st"
  by (simp add: calm_def)

lemma calm_trans: "calm a b \<Longrightarrow> calm b c \<Longrightarrow> calm a c"
  by (simp add: calm_def)

lemma gate_ok_calm: "gate_ok st \<Longrightarrow> calm st st' \<Longrightarrow> gate_ok st'"
  by (simp add: gate_ok_def calm_def)

lemma calm_emit: "e \<noteq> Trigger \<Longrightarrow> calm st (emit e st)"
  by (simp add: calm_def emit_def count_list_snoc)

lemma calm_clearTimeout: "calm st (clearTimeout h st)"
  by (simp add: calm_def clearTimeout_def)

lemma calm_onError: "calm st (onError i err st)"
  by (simp add: calm_def port_onError triggers_onError activeInvocations_onError Map_delete_def)

lemma calm_onResult: "calm st (onResult i data st)"
proof (cases "Map_get (activeInvocations st) i")
  case None
  then show ?thesis by (simp add: onResult_def calm_emit)
next
  case (Some ivc)
  then have ne: "activeInvocations st \<noteq> []" by (auto simp: Map_get_def)
  show ?thesis
    using Some ne
    by (simp add: onResult_def Let_def calm_onError)
       (simp add: calm_def emit_def clearTimeout_def count_list_snoc split: option.splits)
qed

lemma calm_onAck: "calm st (onAck i tt st)"
proof (cases "Map_get (activeInvocations st) i")
  case None
  then show ?thesis by (simp add: onAck_def calm_emit)
next
  case (Some ivc)
  then have ne: "activeInvocations st \<noteq> []" by (auto simp: Map_get_def)
  show ?thesis
    using Some ne
    by (simp add: onAck_def Let_def calm_onError)
       (simp add: calm_def onError_def Let_def emit_def clearTimeout_def setTimeout_def
          count_list_snoc split: option.splits)
qed

lemma calm_timerExpires: "calm st (timerExpires h st)"
  by (cases "Map_get (timers st) h")
     (auto simp: timerExpires_def intro: calm_refl calm_trans [OF calm_clearTimeout calm_onError])

lemma calm_sendResponse: "calm st (sendResponse m t st)"
  by (simp add: sendResponse_def calm_refl calm_emit)

lemma calm_onInvoke: "calm st (snd (onInvoke hs i act params at rt st))"
  by (simp add: onInvoke_def Let_def sendAck_def sendError_def sendResult_def
        invokeMessageHandler_def sendResponse_def calm_def emit_def count_list_snoc
        split: option.splits completion.splits)

lemma port_invoke: "port (invoke act params a r tt pt st) = port st"
  by (simp add: invoke_def Let_def emit_def port_onError setTimeout_def case_prod_beta
        split: option.splits)

lemma triggers_invoke:
  "count_list (trace (invoke act params a r tt pt st)) Trigger = count_list (trace st) Trigger"
  by (simp add: invoke_def Let_def emit_def triggers_onError setTimeout_def case_prod_beta
        count_list_snoc split: option.splits)

lemma fold_onError_frame:
  "port (fold (\<lambda>i. onError i err) ks st) = port st
   \<and> count_list (trace (fold (\<lambda>i. onError i err) ks st)) Trigger = count_list (trace st) Trigger
   \<and> set (Map_keys (activeInvocations (fold (\<lambda>i. onError i err) ks st))) =
       set (Map_keys (activeInvocations st)) - set ks"
  by (induction ks arbitrary: st)
     (auto simp: port_onError triggers_onError activeInvocations_onError Map_keys_delete)

lemma fold_onError_all:
  assumes "distinct (map fst m)" and "activeInvocations st = m"
  shows "trace (fold (\<lambda>i. onError i (NotError s)) (map fst m) st) =
           trace st @ map (\<lambda>e. Reject (resolver (snd e))
                                   (Error (s @ '' ('' @ action (snd e) @ '')''))) m"
  using assms
proof (induction m arbitrary: st)
  case Nil
  then show ?case by simp
next
  case (Cons a m)
  obtain k v where a: "a = (k, v)" by (cases a)
  have g: "Map_get (activeInvocations st) k = Some v"
    using Cons.prems by (simp add: a Map_get_def)
  have fresh: "k \<notin> fst ` set m" using Cons.prems by (simp add: a)
  have t: "trace (onError k (NotError s) st) =
      trace st @ [Reject (resolver v) (Error (s @ '' ('' @ action v @ '')''))]"
    using onError_tracked(1) [OF g, of "NotError s"] by simp
  have r: "activeInvocations (onError k (NotError s) st) = m"
    using onError_tracked(2) [OF g, of "NotError s"] Cons.prems fresh
    by (simp add: a Map_delete_head)
  have d: "distinct (map fst m)" using Cons.prems by simp
  from Cons.IH [OF d r] show ?case by (simp add: a t)
qed

lemma port_onDisconnect: "port (onDisconnect st) = None"
  by (simp add: onDisconnect_def Let_def emit_def fold_onError_frame)

lemma disconnect_idem: "disconnect (disconnect st) = disconnect st"
  using port_onDisconnect [of st] by (simp add: disconnect_def) (simp add: onDisconnect_def)

lemma gate_ok_invoke:
  assumes "gate_ok st"
  shows "gate_ok (invoke act params a r tt pt st)"
proof (cases "port st = None")
  case True
  then show ?thesis
    using assms by (simp add: gate_ok_def invoke_def Let_def emit_def count_list_snoc)
next
  case False
  then obtain y where live: "port st = Some y" by auto
  then show ?thesis
    using assms by (simp add: gate_ok_def port_invoke triggers_invoke)
qed

lemma gate_ok_onDisconnect:
  assumes "gate_ok st"
  shows "gate_ok (onDisconnect st)"
proof (cases "port st = None")
  case True
  then show ?thesis using assms by (simp add: onDisconnect_def)
next
  case False
  then obtain y where live: "port st = Some y" by auto
  have z: "count_list (trace st) Trigger = 0" using assms live by (simp add: gate_ok_def)
  have "set (Map_keys (activeInvocations (onDisconnect st))) = {}"
    using live by (simp add: onDisconnect_def Let_def emit_def fold_onError_frame)
  then have "activeInvocations (onDisconnect st) = []"
    by (simp add: Map_keys_def)
  moreover have "count_list (trace (onDisconnect st)) Trigger = 1"
    using live z by (simp add: onDisconnect_def Let_def emit_def fold_onError_frame count_list_snoc)
  ultimately show ?thesis by (simp add: gate_ok_def port_onDisconnect)
qed

lemma gate_ok_step:
  assumes "gate_ok st"
  shows "gate_ok (step ev st)"
proof (cases ev)
  case CallPrepare
  then show ?thesis using assms by (simp add: step_def prepare_def gate_ok_def)
next
  case (CallInvoke act params a r tt pt)
  then show ?thesis using assms by (simp add: step_def gate_ok_invoke)
next
  case CallDisconnect
  then show ?thesis using assms by (simp add: step_def disconnect_def gate_ok_onDisconnect)
next
  case PortDisconnects
  then show ?thesis using assms by (simp add: step_def gate_ok_onDisconnect)
next
  case (PortMessage hs m tt pt pt2)
  have "calm st (onMessage hs m tt pt pt2 st)"
    by (cases m) (simp_all add: onMessage_def calm_onInvoke calm_onAck calm_onResult calm_refl)
  then show ?thesis using assms PortMessage by (auto simp: step_def intro: gate_ok_calm)
next
  case (TimerExpires h)
  then show ?thesis using assms calm_timerExpires [of st h]
    by (auto simp: step_def intro: gate_ok_calm)
next
  case (HandlerCallback i data pt)
  then show ?thesis using assms calm_sendResponse [of st "Result i data" pt]
    by (auto simp: step_def sendResult_def intro: gate_ok_calm)
qed

lemma gate_ok_run: "gate_ok st \<Longrightarrow> gate_ok (run evs st)"
  unfolding run_def by (induction evs arbitrary: st) (simp_all add: gate_ok_step)

lemma gate_ok_newPort: "gate_ok (newPort tab frame p)"
  by (simp add: gate_ok_def newPort_def)

section \<open>Runs to try the theorems on\<close>

lemma string_of_int_0: "string_of_int 0 = ''0''"
  by code_simp

lemma sample_invoked:
  "invoke ''ping'' JNull (Some 3000) (Some 10000) False None (openedPort 1 2 7) =
     \<lparr>otherTabId = 1, otherFrameId = 2, port = Some 7,
      activeInvocations =
        [(0, \<lparr>invocation_id = 0, resolver = 0, responseTimeout = Some 10000,
               action = ''ping'', ack = False, timer = Some 0\<rparr>)],
      invocationId = 1, eventListeners = True,
      timers = [(0, (0, ''Acknowledgement timeout''))], timerCount = 1,
      promiseCount = 1, trace = [PostMessage (Invoke 0 ''ping'' JNull) None]\<rparr>"
  by (simp add: invoke_def openedPort_def newPort_def Let_def js_increment_def
        setTimeout_def emit_def)

lemma sample_acknowledged:
  "onAck 0 False (invoke ''ping'' JNull (Some 3000) (Some 10000) False None (openedPort 1 2 7)) =
     \<lparr>otherTabId = 1, otherFrameId = 2, port = Some 7,
      activeInvocations =
        [(0, \<lparr>invocation_id = 0, resolver = 0, responseTimeout = Some 10000,
               action = ''ping'', ack = True, timer = Some 1\<rparr>)],
      invocationId = 1, eventListeners = True,
      timers = [(1, (0, ''Response timeout''))], timerCount = 2,
      promiseCount = 1, trace = [PostMessage (Invoke 0 ''ping'' JNull) None]\<rparr>"
  by (simp add: sample_invoked onAck_def Map_get_def Let_def clearTimeout_def Map_delete_def
        setTimeout_def)

lemma run_pending:
  "run [CallPrepare, CallInvoke ''ping'' JNull (Some 3000) (Some 10000) False None]
     (newPort 1 2 7) =
     \<lparr>otherTabId = 1, otherFrameId = 2, port = Some 7,
      activeInvocations =
        [(0, \<lparr>invocation_id = 0, resolver = 0, responseTimeout = Some 10000,
               action = ''ping'', ack = False, timer = Some 0\<rparr>)],
      invocationId = 1, eventListeners = True,
      timers = [(0, (0, ''Acknowledgement timeout''))], timerCount = 1,
      promiseCount = 1, trace = [PostMessage (Invoke 0 ''ping'' JNull) None]\<rparr>"
  by (simp add: run_def step_def prepare_def invoke_def newPort_def Let_def js_increment_def
        setTimeout_def emit_def)

lemma run_settled:
  "run
     [CallPrepare, CallInvoke ''ping'' JNull (Some 3000) (Some 10000) False None,
      PortMessage [] (Ack 0) False None None,
      PortMessage [] (Result 0 \<lparr>error = None, result = JStr ''pong''\<rparr>) False None None,
      PortMessage [] (Result 0 \<lparr>error = None, result = JStr ''pong''\<rparr>) False None None,
      PortMessage [] (Ack 0) False None None]
     (newPort 1 2 7) =
     \<lparr>otherTabId = 1, otherFrameId = 2, port = Some 7, activeInvocations = [],
      invocationId = 1, eventListeners = True, timers = [], timerCount = 2,
      promiseCount = 1,
      trace = [PostMessage (Invoke 0 ''ping'' JNull) None, Resolve 0 (JStr ''pong''),
               LogWarn (Error ''Request 0 not found''),
               LogWarn (Error ''Request 0 not found for acknowledgement'')]\<rparr>"
  by (simp add: run_def step_def prepare_def invoke_def newPort_def Let_def js_increment_def
        setTimeout_def emit_def onMessage_def onAck_def onResult_def Map_get_def
        clearTimeout_def Map_delete_def string_of_int_0)

lemma run_disconnected:
  "run
     [CallPrepare, CallInvoke ''ping'' JNull (Some 3000) (Some 10000) False None,
      CallDisconnect, PortDisconnects, CallDisconnect]
     (newPort 1 2 7) =
     \<lparr>otherTabId = 1, otherFrameId = 2, port = None, activeInvocations = [],
      invocationId = 1, eventListeners = False, timers = [], timerCount = 1,
      promiseCount = 1,
      trace = [PostMessage (Invoke 0 ''ping'' JNull) None,
               Reject 0 (Error ''Disconnected (ping)''), Trigger]\<rparr>"
  by (simp add: run_def step_def prepare_def invoke_def newPort_def Let_def js_increment_def
        setTimeout_def emit_def disconnect_def onDisconnect_def onError_def Map_keys_def
        Map_get_def clearTimeout_def Map_delete_def)

section \<open>The claims\<close>

text \<open>
  C1. Along every run of a channel, whatever is called on it and whatever the transport,
  the timers and the handlers do, every promise is settled at most once; a promise whose
  invocation is still in the table has not been settled; and, as long as the id counter
  is below \<open>2^53\<close> (where \<^verbatim>\<open>this._invocationId++\<close> is exact and no id is used
  twice), a promise that \<^verbatim>\<open>invoke\<close> made and that is not in the table has been
  settled exactly once. After \<^verbatim>\<open>_onResult\<close> or \<^verbatim>\<open>_onError\<close> for an id, the table
  has no entry for it; and an ack, result or error for an id without entry settles
  nothing.
\<close>

theorem exactly_one_resolution:
  "settlements (trace (run evs (newPort tab frame tp))) p \<le> 1
   \<and> (tracked (run evs (newPort tab frame tp)) p \<longrightarrow>
        settlements (trace (run evs (newPort tab frame tp))) p = 0)
   \<and> (p < promiseCount (run evs (newPort tab frame tp))
        \<and> \<not> tracked (run evs (newPort tab frame tp)) p
        \<and> invocationId (run evs (newPort tab frame tp)) < 9007199254740992 \<longrightarrow>
        settlements (trace (run evs (newPort tab frame tp))) p = 1)
   \<and> (promiseCount (run evs (newPort tab frame tp)) \<le> p \<longrightarrow>
        \<not> tracked (run evs (newPort tab frame tp)) p
        \<and> settlements (trace (run evs (newPort tab frame tp))) p = 0)
   \<and> Map_get (activeInvocations (onResult i data st)) i = None
   \<and> Map_get (activeInvocations (onError i err st)) i = None
   \<and> (Map_get (activeInvocations st) i = None \<longrightarrow>
        settled (trace (onAck i timeoutThrows st)) = settled (trace st)
        \<and> settled (trace (onResult i data st)) = settled (trace st)
        \<and> onError i err st = st)"
proof -
  define R where "R = run evs (newPort tab frame tp)"
  have ok: "ledger_ok (slots R, settled (trace R), promiseCount R, invocationId R)"
    using ledger_ok_run [OF ledger_ok_newPort, of evs tab frame tp]
    by (simp add: R_def ledger_def)
  note D = ledger_okD [OF ok]
  have 1: "settlements (trace R) p \<le> 1"
    using D(5) [of p] by (simp add: settlements_def)
  have 2: "tracked R p \<longrightarrow> settlements (trace R) p = 0"
    using D(4) [of p] by (simp add: settlements_def tracked_def)
  have 3: "p < promiseCount R \<and> \<not> tracked R p \<and> invocationId R < 9007199254740992 \<longrightarrow>
        settlements (trace R) p = 1"
    using D(8) [of p] by (simp add: settlements_def tracked_def)
  have 4: "promiseCount R \<le> p \<longrightarrow> \<not> tracked R p \<and> settlements (trace R) p = 0"
    using D(3) [of p] D(6) [of p] unfolding settlements_def tracked_def by fastforce
  have 5: "Map_get (activeInvocations st) i = None \<longrightarrow>
        settled (trace (onAck i timeoutThrows st)) = settled (trace st)
        \<and> settled (trace (onResult i data st)) = settled (trace st)
        \<and> onError i err st = st"
  proof
    assume a: "Map_get (activeInvocations st) i = None"
    then have s: "Map_get (slots st) i = None" by (simp add: slots_def slots_Map_get)
    have "ledger (onAck i timeoutThrows st) = ledger st"
      using ledger_onAck [of i timeoutThrows st] ledger_settle_absent [OF s] by auto
    moreover have "ledger (onResult i data st) = ledger st"
      using ledger_onResult [of i data st] ledger_settle_absent [OF s] by simp
    moreover have "onError i err st = st" using a by (simp add: onError_def)
    ultimately show "settled (trace (onAck i timeoutThrows st)) = settled (trace st)
        \<and> settled (trace (onResult i data st)) = settled (trace st)
        \<and> onError i err st = st"
      by (simp add: settled_of_ledger)
  qed
  show ?thesis
    using 1 2 3 4 5 Map_get_onResult [of i data st] Map_get_onError [of i err st]
    unfolding R_def by blast
qed

theorem exactly_one_resolution_witness:
  "tracked (run [CallPrepare, CallInvoke ''ping'' JNull (Some 3000) (Some 10000) False None]
             (newPort 1 2 7)) 0
   \<and> settlements (trace (run
         [CallPrepare, CallInvoke ''ping'' JNull (Some 3000) (Some 10000) False None]
         (newPort 1 2 7))) 0 = 0
   \<and> \<not> tracked (run
         [CallPrepare, CallInvoke ''ping'' JNull (Some 3000) (Some 10000) False None,
          PortMessage [] (Ack 0) False None None,
          PortMessage [] (Result 0 \<lparr>error = None, result = JStr ''pong''\<rparr>) False None None,
          PortMessage [] (Result 0 \<lparr>error = None, result = JStr ''pong''\<rparr>) False None None,
          PortMessage [] (Ack 0) False None None]
         (newPort 1 2 7)) 0
   \<and> settlements (trace (run
         [CallPrepare, CallInvoke ''ping'' JNull (Some 3000) (Some 10000) False None,
          PortMessage [] (Ack 0) False None None,
          PortMessage [] (Result 0 \<lparr>error = None, result = JStr ''pong''\<rparr>) False None None,
          PortMessage [] (Result 0 \<lparr>error = None, result = JStr ''pong''\<rparr>) False None None,
          PortMessage [] (Ack 0) False None None]
         (newPort 1 2 7))) 0 = 1
   \<and> settlements (trace (run
         [CallPrepare, CallInvoke ''ping'' JNull (Some 3000) (Some 10000) False None,
          PortMessage [] (Ack 0) False None None,
          PortMessage [] (Result 0 \<lparr>error = None, result = JStr ''pong''\<rparr>) False None None,
          PortMessage [] (Result 0 \<lparr>error = None, result = JStr ''pong''\<rparr>) False None None,
          PortMessage [] (Ack 0) False None None]
         (newPort 1 2 7))) 5 = 0
   \<and> Map_get (activeInvocations (newPort 1 2 7)) 0 = None
   \<and> settled (trace (onResult 0 \<lparr>error = None, result = JStr ''pong''\<rparr> (newPort 1 2 7))) = []
   \<and> onError 0 (NotError ''Response timeout'') (newPort 1 2 7) = newPort 1 2 7"
proof -
  let ?pending = "run [CallPrepare, CallInvoke ''ping'' JNull (Some 3000) (Some 10000) False None]
             (newPort 1 2 7)"
  let ?evs = "[CallPrepare, CallInvoke ''ping'' JNull (Some 3000) (Some 10000) False None,
          PortMessage [] (Ack 0) False None None,
          PortMessage [] (Result 0 \<lparr>error = None, result = JStr ''pong''\<rparr>) False None None,
          PortMessage [] (Result 0 \<lparr>error = None, result = JStr ''pong''\<rparr>) False None None,
          PortMessage [] (Ack 0) False None None]"
  let ?done = "run ?evs (newPort 1 2 7)"
  have t: "tracked ?pending 0"
    by (simp add: run_pending tracked_def slots_def)
  have u: "\<not> tracked ?done 0"
    by (simp add: run_settled tracked_def slots_def)
  have c: "0 < promiseCount ?done" "invocationId ?done < 9007199254740992"
    "promiseCount ?done \<le> 5"
    by (simp_all add: run_settled)
  have n: "Map_get (activeInvocations (newPort 1 2 7)) 0 = None"
    by (simp add: newPort_def Map_get_def)
  have e: "settled (trace (newPort 1 2 7)) = []"
    by (simp add: newPort_def settled_def List.map_filter_def)
  show ?thesis
    using t u c n e
      exactly_one_resolution [of
        "[CallPrepare, CallInvoke ''ping'' JNull (Some 3000) (Some 10000) False None]"
        1 2 7 0 0 "\<lparr>error = None, result = JStr ''pong''\<rparr>" "newPort 1 2 7"
        "NotError ''Response timeout''" False]
      exactly_one_resolution [of ?evs 1 2 7 0 0
        "\<lparr>error = None, result = JStr ''pong''\<rparr>" "newPort 1 2 7"
        "NotError ''Response timeout''" False]
      exactly_one_resolution [of ?evs 1 2 7 5 0
        "\<lparr>error = None, result = JStr ''pong''\<rparr>" "newPort 1 2 7"
        "NotError ''Response timeout''" False]
    by simp
qed

text \<open>
  C2. On a channel with transport, \<^verbatim>\<open>_onInvoke\<close> first reads the entry of the action
  from the handler table, then posts \<^verbatim>\<open>ack(id)\<close> whether or not there is an entry, and
  only then acts on what it read: it posts the unknown-action result, or it calls the
  handler and posts the result with which the handler completes at once, if it does. So
  the ack is posted before any handler logic runs and before any result, but after the
  look-up in the table.
\<close>

theorem ack_precedes_handler:
  assumes "port st \<noteq> None"
  shows "trace (snd (onInvoke hs i act params ackThrows resultThrows st)) =
           trace st @ GetHandler act # PostMessage (Ack i) ackThrows #
             (case Map_get hs act of
                None \<Rightarrow>
                  [PostMessage
                     (Result i \<lparr>error = Some (Serialized (''Unknown action: '' @ act)),
                               result = JUndefined\<rparr>) resultThrows]
              | Some h \<Rightarrow>
                  CallHandler act params #
                    (case h params of
                       Completes data \<Rightarrow> [PostMessage (Result i data) resultThrows]
                     | CompletesLater \<Rightarrow> []))"
  using assms
  by (simp add: onInvoke_def Let_def sendAck_def sendError_def sendResult_def
        invokeMessageHandler_def trace_sendResponse port_sendResponse trace_emit port_emit
        split: option.splits completion.splits)

theorem ack_precedes_handler_witness:
  "port (openedPort 1 2 7) \<noteq> None
   \<and> trace (snd (onInvoke [(''a'', sample_handler)] 5 ''a'' (JStr ''x'') None None
        (openedPort 1 2 7))) =
       [GetHandler ''a'', PostMessage (Ack 5) None, CallHandler ''a'' (JStr ''x''),
        PostMessage (Result 5 \<lparr>error = None, result = JStr ''x''\<rparr>) None]"
proof -
  have p: "port (openedPort 1 2 7) \<noteq> None"
    by (simp add: openedPort_def newPort_def)
  show ?thesis
    using p ack_precedes_handler [OF p, of "[(''a'', sample_handler)]" 5 "''a''" "JStr ''x''" None None]
    by (simp add: openedPort_def newPort_def Map_get_def sample_handler_def)
qed

text \<open>
  C2, as first stated, has the ack sent before the action is looked up. In the trace of an
  incoming \<^verbatim>\<open>invoke\<close> the ack does not come before the read of the handler table;
  the read comes before the ack (lines 246 and 247).
\<close>

theorem ack_after_lookup_counterexample:
  "\<not> occurs_before (PostMessage (Ack 5) None) (GetHandler ''ping'')
       (trace (snd (onInvoke [] 5 ''ping'' JNull None None (openedPort 1 2 7))))
   \<and> occurs_before (GetHandler ''ping'') (PostMessage (Ack 5) None)
       (trace (snd (onInvoke [] 5 ''ping'' JNull None None (openedPort 1 2 7))))"
  by (simp add: occurs_before_def onInvoke_def Let_def sendAck_def sendError_def
        sendResponse_def emit_def openedPort_def newPort_def Map_get_def)

text \<open>
  C3. \<^verbatim>\<open>_getOrCreateCommPort\<close> returns the channel registered under the key at once
  and without a call of the broker when there is one; otherwise it calls the broker, and
  when that call has completed the caller gets the channel registered under the key at
  that moment, or the error \<^verbatim>\<open>Comm port didn't open\<close>. Every transport that arrives
  makes \<^verbatim>\<open>_setupCommPort\<close> construct a new channel object and register it under its
  key in place of what was registered there; the other keys keep their channels.
\<close>

theorem getOrCreate_returns_registered:
  "(getCommPort api tab frame = Some c \<longrightarrow>
      getOrCreateCommPort tab frame api = (Returned c, api))
   \<and> (getCommPort api tab frame = None \<longrightarrow>
        getOrCreateCommPort tab frame api =
          (Awaiting, api\<lparr>brokerRequests := brokerRequests api @ [(tab, frame)]\<rparr>))
   \<and> createCommPort_resume None tab frame api =
        (case getCommPort api tab frame of
           Some c' \<Rightarrow> Inr c'
         | None \<Rightarrow> Inl (Error ''Comm port didn't open''))
   \<and> fst (setupCommPort tab frame p api) = length (objects api)
   \<and> objects (snd (setupCommPort tab frame p api)) = objects api @ [openedPort tab frame p]
   \<and> getCommPort (snd (setupCommPort tab frame p api)) tab' frame' =
        (if tab' = tab \<and> frame' = frame then Some (length (objects api))
         else getCommPort api tab' frame')"
  by (simp add: getCommPort_setup getOrCreateCommPort_def createCommPort_resume_def)
     (simp add: setupCommPort_def Let_def prepare_def newPort_def openedPort_def)

theorem getOrCreate_returns_registered_witness:
  "getCommPort (snd (setupCommPort 1 2 10 newAPI)) 1 2 = Some 0
   \<and> getOrCreateCommPort 1 2 (snd (setupCommPort 1 2 10 newAPI)) =
       (Returned 0, snd (setupCommPort 1 2 10 newAPI))
   \<and> getCommPort newAPI 1 2 = None
   \<and> getOrCreateCommPort 1 2 newAPI = (Awaiting, newAPI\<lparr>brokerRequests := [(1, 2)]\<rparr>)
   \<and> createCommPort_resume None 1 2 newAPI = Inl (Error ''Comm port didn't open'')"
proof -
  have a: "getCommPort (snd (setupCommPort 1 2 10 newAPI)) 1 2 = Some 0"
    by (simp add: getCommPort_setup newAPI_def)
  have b: "getCommPort newAPI 1 2 = None"
    by (simp add: getCommPort_def newAPI_def Map_get_def)
  show ?thesis
    using a b
      getOrCreate_returns_registered [of "snd (setupCommPort 1 2 10 newAPI)" 1 2 0 10 1 2]
      getOrCreate_returns_registered [of newAPI 1 2 0 10 1 2]
    by (simp add: newAPI_def)
qed

text \<open>
  C3, as first stated, has two concurrent calls for one key resolve to the same channel.
  Two calls for the key \<open>(1, 2)\<close> made while nothing is registered both call the broker;
  when a transport arrives and the first caller runs on, and then a second transport
  arrives and the second caller runs on, the first caller gets the channel object 0 and
  the second the channel object 1, and both objects have their transport and their
  listeners.
\<close>

theorem concurrent_getOrCreate_counterexample:
  "\<not> resolve_alike (snd (api_run
      [CallGetOrCreate 1 2, CallGetOrCreate 1 2,
       Connects (Details ''cross-frame-communication-port'' 1 2) 10, BrokerCompletes None 1 2,
       Connects (Details ''cross-frame-communication-port'' 1 2) 11, BrokerCompletes None 1 2]))
   \<and> snd (api_run
      [CallGetOrCreate 1 2, CallGetOrCreate 1 2,
       Connects (Details ''cross-frame-communication-port'' 1 2) 10, BrokerCompletes None 1 2,
       Connects (Details ''cross-frame-communication-port'' 1 2) 11, BrokerCompletes None 1 2]) =
     [Inr 0, Inr 1]
   \<and> map port (objects (fst (api_run
      [CallGetOrCreate 1 2, CallGetOrCreate 1 2,
       Connects (Details ''cross-frame-communication-port'' 1 2) 10, BrokerCompletes None 1 2,
       Connects (Details ''cross-frame-communication-port'' 1 2) 11, BrokerCompletes None 1 2]))) =
     [Some 10, Some 11]
   \<and> map eventListeners (objects (fst (api_run
      [CallGetOrCreate 1 2, CallGetOrCreate 1 2,
       Connects (Details ''cross-frame-communication-port'' 1 2) 10, BrokerCompletes None 1 2,
       Connects (Details ''cross-frame-communication-port'' 1 2) 11, BrokerCompletes None 1 2]))) =
     [True, True]"
  by (simp add: api_run_def api_step_def getOrCreateCommPort_def getCommPort_def
        createCommPort_resume_def onConnect_def setupCommPort_def newAPI_def Map_get_def
        prepare_def newPort_def Let_def resolve_alike_def)

text \<open>
  C4. A result message for a tracked invocation that has not been acknowledged rejects
  the promise of the invocation with the error
  \<^verbatim>\<open>Request <id> not acknowledged (<action>)\<close> and removes the invocation from the
  table; the trace gains this one rejection and nothing else, so the promise is not
  resolved with the payload.
\<close>

theorem result_before_ack_rejects:
  assumes "Map_get (activeInvocations st) i = Some ivc" and "\<not> ack ivc"
  shows "trace (onMessage hs (Result i data) timeoutThrows postThrows postThrows2 st) =
           trace st @ [Reject (resolver ivc)
             (Error (''Request '' @ string_of_int i @ '' not acknowledged ('' @ action ivc @ '')''))]
         \<and> Map_get (activeInvocations
               (onMessage hs (Result i data) timeoutThrows postThrows postThrows2 st)) i = None"
  using assms by (simp add: onMessage_def onResult_def onError_tracked Map_get_delete)

theorem result_before_ack_rejects_witness:
  "Map_get (activeInvocations
      (invoke ''ping'' JNull (Some 3000) (Some 10000) False None (openedPort 1 2 7))) 0 =
     Some \<lparr>invocation_id = 0, resolver = 0, responseTimeout = Some 10000,
           action = ''ping'', ack = False, timer = Some 0\<rparr>
   \<and> trace (onMessage [] (Result 0 \<lparr>error = None, result = JStr ''pong''\<rparr>) False None None
        (invoke ''ping'' JNull (Some 3000) (Some 10000) False None (openedPort 1 2 7))) =
       [PostMessage (Invoke 0 ''ping'' JNull) None,
        Reject 0 (Error ''Request 0 not acknowledged (ping)'')]
   \<and> Map_get (activeInvocations
        (onMessage [] (Result 0 \<lparr>error = None, result = JStr ''pong''\<rparr>) False None None
          (invoke ''ping'' JNull (Some 3000) (Some 10000) False None (openedPort 1 2 7)))) 0 = None"
proof -
  let ?st = "invoke ''ping'' JNull (Some 3000) (Some 10000) False None (openedPort 1 2 7)"
  let ?ivc = "\<lparr>invocation_id = 0, resolver = 0, responseTimeout = Some 10000,
           action = ''ping'', ack = False, timer = Some 0\<rparr>"
  have h: "Map_get (activeInvocations ?st) 0 = Some ?ivc"
    by (simp add: sample_invoked Map_get_def)
  have a: "\<not> ack ?ivc" by simp
  show ?thesis
    using h result_before_ack_rejects
      [OF h a, of "[]" "\<lparr>error = None, result = JStr ''pong''\<rparr>" False None None]
    by (simp add: sample_invoked string_of_int_0)
qed

text \<open>
  C5. An ack message for a tracked invocation that is already acknowledged rejects the
  promise of the invocation with the error
  \<^verbatim>\<open>Request <id> already acknowledged (<action>)\<close> and removes the invocation from
  the table.
\<close>

theorem duplicate_ack_rejects:
  assumes "Map_get (activeInvocations st) i = Some ivc" and "ack ivc"
  shows "trace (onMessage hs (Ack i) timeoutThrows postThrows postThrows2 st) =
           trace st @ [Reject (resolver ivc)
             (Error (''Request '' @ string_of_int i @ '' already acknowledged ('' @ action ivc @ '')''))]
         \<and> Map_get (activeInvocations
               (onMessage hs (Ack i) timeoutThrows postThrows postThrows2 st)) i = None"
  using assms by (simp add: onMessage_def onAck_def onError_tracked Map_get_delete)

theorem duplicate_ack_rejects_witness:
  "Map_get (activeInvocations (onAck 0 False
      (invoke ''ping'' JNull (Some 3000) (Some 10000) False None (openedPort 1 2 7)))) 0 =
     Some \<lparr>invocation_id = 0, resolver = 0, responseTimeout = Some 10000,
           action = ''ping'', ack = True, timer = Some 1\<rparr>
   \<and> trace (onMessage [] (Ack 0) False None None (onAck 0 False
        (invoke ''ping'' JNull (Some 3000) (Some 10000) False None (openedPort 1 2 7)))) =
       [PostMessage (Invoke 0 ''ping'' JNull) None,
        Reject 0 (Error ''Request 0 already acknowledged (ping)'')]
   \<and> Map_get (activeInvocations (onMessage [] (Ack 0) False None None (onAck 0 False
        (invoke ''ping'' JNull (Some 3000) (Some 10000) False None (openedPort 1 2 7))))) 0 = None"
proof -
  let ?st = "onAck 0 False
      (invoke ''ping'' JNull (Some 3000) (Some 10000) False None (openedPort 1 2 7))"
  let ?ivc = "\<lparr>invocation_id = 0, resolver = 0, responseTimeout = Some 10000,
           action = ''ping'', ack = True, timer = Some 1\<rparr>"
  have h: "Map_get (activeInvocations ?st) 0 = Some ?ivc"
    by (simp add: sample_acknowledged Map_get_def)
  have a: "ack ?ivc" by simp
  show ?thesis
    using h duplicate_ack_rejects [OF h a, of "[]" False None None]
    by (simp add: sample_acknowledged string_of_int_0)
qed

text \<open>
  C6. \<^verbatim>\<open>invoke\<close> on a channel without transport rejects the new promise at once
  with \<^verbatim>\<open>Port is disconnected (<action>)\<close> and changes nothing else: the id counter,
  the table of invocations, the armed timers and the timer counter stay as they are.
\<close>

theorem invoke_on_disconnected_port:
  assumes "port st = None"
  shows "invoke act params ackTimeout respTimeout timeoutThrows postThrows st =
           st\<lparr>promiseCount := Suc (promiseCount st),
              trace := trace st @
                [Reject (promiseCount st) (Error (''Port is disconnected ('' @ act @ '')''))]\<rparr>"
  using assms by (simp add: invoke_def Let_def emit_def)

theorem invoke_on_disconnected_port_witness:
  "port (disconnect (openedPort 1 2 7)) = None \<and>
   invoke ''ping'' JNull (Some 3000) (Some 10000) False None (disconnect (openedPort 1 2 7)) =
     \<lparr>otherTabId = 1, otherFrameId = 2, port = None, activeInvocations = [],
      invocationId = 0, eventListeners = False, timers = [], timerCount = 0,
      promiseCount = 1,
      trace = [Trigger, Reject 0 (Error ''Port is disconnected (ping)'')]\<rparr>"
proof -
  have d: "disconnect (openedPort 1 2 7) =
     \<lparr>otherTabId = 1, otherFrameId = 2, port = None, activeInvocations = [],
      invocationId = 0, eventListeners = False, timers = [], timerCount = 0,
      promiseCount = 0, trace = [Trigger]\<rparr>"
    by (simp add: disconnect_def onDisconnect_def openedPort_def newPort_def Map_keys_def emit_def)
  have p: "port (disconnect (openedPort 1 2 7)) = None"
    by (simp add: d)
  show ?thesis
    using p invoke_on_disconnected_port [OF p, of "''ping''" JNull "Some 3000" "Some 10000" False None]
    by (simp add: d)
qed

text \<open>
  C7. On a channel with transport, reached by any run, \<^verbatim>\<open>disconnect\<close> rejects the
  promise of every tracked invocation, in the order of the table, with
  \<^verbatim>\<open>Disconnected (<action>)\<close>, leaves the table empty and emits the disconnect
  notification after the rejections. A channel without transport tracks nothing,
  \<^verbatim>\<open>disconnect\<close> always leaves the channel without transport, and a second
  \<^verbatim>\<open>disconnect\<close> changes nothing. Along every run, with \<^verbatim>\<open>disconnect\<close> called
  and the transport disconnecting in any number and order, the notification has been
  emitted exactly once when the transport is gone, and never before.
\<close>

theorem disconnect_rejects_all_once:
  "(port (run evs (newPort tab frame tp)) \<noteq> None \<longrightarrow>
      activeInvocations (disconnect (run evs (newPort tab frame tp))) = []
      \<and> trace (disconnect (run evs (newPort tab frame tp))) =
          trace (run evs (newPort tab frame tp))
          @ map (\<lambda>e. Reject (resolver (snd e)) (Error (''Disconnected ('' @ action (snd e) @ '')'')))
              (activeInvocations (run evs (newPort tab frame tp)))
          @ [Trigger])
   \<and> (port (run evs (newPort tab frame tp)) = None \<longrightarrow>
        activeInvocations (run evs (newPort tab frame tp)) = [])
   \<and> port (disconnect st) = None
   \<and> disconnect (disconnect st) = disconnect st
   \<and> count_list (trace (run evs (newPort tab frame tp))) Trigger =
        (if port (run evs (newPort tab frame tp)) = None then 1 else 0)"
proof -
  define R where "R = run evs (newPort tab frame tp)"
  have g: "gate_ok R"
    unfolding R_def using gate_ok_newPort by (rule gate_ok_run)
  have ok: "ledger_ok (slots R, settled (trace R), promiseCount R, invocationId R)"
    using ledger_ok_run [OF ledger_ok_newPort, of evs tab frame tp]
    by (simp add: R_def ledger_def)
  have d: "distinct (map fst (activeInvocations R))"
    using ledger_okD(1) [OF ok] by (simp add: slots_def comp_def)
  have 1: "port R \<noteq> None \<longrightarrow>
      activeInvocations (disconnect R) = []
      \<and> trace (disconnect R) =
          trace R
          @ map (\<lambda>e. Reject (resolver (snd e)) (Error (''Disconnected ('' @ action (snd e) @ '')'')))
              (activeInvocations R)
          @ [Trigger]"
  proof
    assume "port R \<noteq> None"
    then obtain y where live: "port R = Some y" by auto
    have e: "activeInvocations (disconnect R) = []"
      using gate_ok_onDisconnect [OF g] port_onDisconnect [of R]
      by (simp add: gate_ok_def disconnect_def)
    have a: "activeInvocations (R\<lparr>eventListeners := False, port := None\<rparr>) = activeInvocations R"
      by simp
    have "trace (disconnect R) =
        trace (fold (\<lambda>i. onError i (NotError ''Disconnected'')) (map fst (activeInvocations R))
                 (R\<lparr>eventListeners := False, port := None\<rparr>)) @ [Trigger]"
      using live by (simp add: disconnect_def onDisconnect_def Let_def emit_def Map_keys_def)
    then have "trace (disconnect R) =
          trace R
          @ map (\<lambda>e. Reject (resolver (snd e)) (Error (''Disconnected ('' @ action (snd e) @ '')'')))
              (activeInvocations R)
          @ [Trigger]"
      using fold_onError_all [OF d a, of "''Disconnected''"] by simp
    with e show "activeInvocations (disconnect R) = []
      \<and> trace (disconnect R) =
          trace R
          @ map (\<lambda>e. Reject (resolver (snd e)) (Error (''Disconnected ('' @ action (snd e) @ '')'')))
              (activeInvocations R)
          @ [Trigger]" by simp
  qed
  have 2: "port R = None \<longrightarrow> activeInvocations R = []"
    using g by (simp add: gate_ok_def)
  have 3: "count_list (trace R) Trigger = (if port R = None then 1 else 0)"
    using g by (simp add: gate_ok_def)
  have 4: "port (disconnect st) = None"
    by (simp add: disconnect_def port_onDisconnect)
  show ?thesis
    using 1 2 3 4 disconnect_idem [of st] unfolding R_def by blast
qed

theorem disconnect_rejects_all_once_witness:
  "port (run [CallPrepare, CallInvoke ''ping'' JNull (Some 3000) (Some 10000) False None]
           (newPort 1 2 7)) \<noteq> None
   \<and> activeInvocations (disconnect (run
         [CallPrepare, CallInvoke ''ping'' JNull (Some 3000) (Some 10000) False None]
         (newPort 1 2 7))) = []
   \<and> trace (disconnect (run
         [CallPrepare, CallInvoke ''ping'' JNull (Some 3000) (Some 10000) False None]
         (newPort 1 2 7))) =
       [PostMessage (Invoke 0 ''ping'' JNull) None, Reject 0 (Error ''Disconnected (ping)''),
        Trigger]
   \<and> port (run
         [CallPrepare, CallInvoke ''ping'' JNull (Some 3000) (Some 10000) False None,
          CallDisconnect, PortDisconnects, CallDisconnect]
         (newPort 1 2 7)) = None
   \<and> activeInvocations (run
         [CallPrepare, CallInvoke ''ping'' JNull (Some 3000) (Some 10000) False None,
          CallDisconnect, PortDisconnects, CallDisconnect]
         (newPort 1 2 7)) = []
   \<and> count_list (trace (run
         [CallPrepare, CallInvoke ''ping'' JNull (Some 3000) (Some 10000) False None,
          CallDisconnect, PortDisconnects, CallDisconnect]
         (newPort 1 2 7))) Trigger = 1"
proof -
  let ?pending = "run [CallPrepare, CallInvoke ''ping'' JNull (Some 3000) (Some 10000) False None]
             (newPort 1 2 7)"
  let ?evs = "[CallPrepare, CallInvoke ''ping'' JNull (Some 3000) (Some 10000) False None,
          CallDisconnect, PortDisconnects, CallDisconnect]"
  have l: "port ?pending \<noteq> None" by (simp add: run_pending)
  have a: "trace ?pending = [PostMessage (Invoke 0 ''ping'' JNull) None]"
    "activeInvocations ?pending =
        [(0, \<lparr>invocation_id = 0, resolver = 0, responseTimeout = Some 10000,
               action = ''ping'', ack = False, timer = Some 0\<rparr>)]"
    by (simp_all add: run_pending)
  have d: "port (run ?evs (newPort 1 2 7)) = None" by (simp add: run_disconnected)
  show ?thesis
    using l d
      disconnect_rejects_all_once [of
        "[CallPrepare, CallInvoke ''ping'' JNull (Some 3000) (Some 10000) False None]"
        1 2 7 "newPort 1 2 7"]
      disconnect_rejects_all_once [of ?evs 1 2 7 "newPort 1 2 7"]
    by (simp add: a)
qed

text \<open>
  C8. \<^verbatim>\<open>registerHandlers\<close> throws when the name of its first pair is registered and
  leaves the table as it was; it throws whenever some name of the list is registered;
  and a registered name keeps its handler whatever the list is. \<^verbatim>\<open>unregisterHandler\<close>
  returns whether the name was registered and leaves the table without it; its result
  has no error case.
\<close>

theorem register_existing_fails_unregister_reports:
  "(Map_has (messageHandlers api) key \<longrightarrow>
      registerHandlers ((key, h) # rest) api =
        (Some (Error (''Handler '' @ key @ '' is already registered'')), api))
   \<and> (Map_has (messageHandlers api) key \<and> key \<in> fst ` set hs \<longrightarrow>
        fst (registerHandlers hs api) \<noteq> None)
   \<and> (Map_has (messageHandlers api) key \<longrightarrow>
        Map_get (messageHandlers (snd (registerHandlers hs api))) key =
          Map_get (messageHandlers api) key)
   \<and> fst (unregisterHandler key api) = (key \<in> set (Map_keys (messageHandlers api)))
   \<and> messageHandlers (snd (unregisterHandler key api)) =
        filter (\<lambda>e. fst e \<noteq> key) (messageHandlers api)"
proof (intro conjI impI)
  assume "Map_has (messageHandlers api) key"
  then show "registerHandlers ((key, h) # rest) api =
        (Some (Error (''Handler '' @ key @ '' is already registered'')), api)"
    by (simp add: registerHandlers_def)
next
  assume "Map_has (messageHandlers api) key \<and> key \<in> fst ` set hs"
  then show "fst (registerHandlers hs api) \<noteq> None"
    using registerHandlers_loop_throws [of "messageHandlers api" key hs]
    by (simp add: registerHandlers_fst)
next
  assume "Map_has (messageHandlers api) key"
  then show "Map_get (messageHandlers (snd (registerHandlers hs api))) key =
          Map_get (messageHandlers api) key"
    using registerHandlers_loop_keeps [of "messageHandlers api" key hs]
    by (simp add: registerHandlers_snd)
next
  show "fst (unregisterHandler key api) = (key \<in> set (Map_keys (messageHandlers api)))"
    by (simp add: unregisterHandler_def Map_has_get Map_get_None_iff)
next
  show "messageHandlers (snd (unregisterHandler key api)) =
        filter (\<lambda>e. fst e \<noteq> key) (messageHandlers api)"
    by (simp add: unregisterHandler_def Map_delete_def)
qed

theorem register_existing_fails_unregister_reports_witness:
  "Map_has (messageHandlers sample_api) ''a''
   \<and> ''a'' \<in> fst ` set [(''c'', sample_handler), (''a'', (\<lambda>v. CompletesLater))]
   \<and> registerHandlers [(''a'', (\<lambda>v. CompletesLater))] sample_api =
        (Some (Error ''Handler a is already registered''), sample_api)
   \<and> fst (registerHandlers [(''c'', sample_handler), (''a'', (\<lambda>v. CompletesLater))] sample_api)
        \<noteq> None
   \<and> Map_get (messageHandlers (snd (registerHandlers
          [(''c'', sample_handler), (''a'', (\<lambda>v. CompletesLater))] sample_api))) ''a'' =
        Some sample_handler
   \<and> fst (unregisterHandler ''a'' sample_api) = True
   \<and> messageHandlers (snd (unregisterHandler ''a'' sample_api)) = []"
proof -
  have h: "Map_has (messageHandlers sample_api) ''a''"
    by (simp add: sample_api_def newAPI_def Map_has_def)
  have m: "''a'' \<in> fst ` set [(''c'', sample_handler), (''a'', (\<lambda>v. CompletesLater))]"
    by simp
  show ?thesis
    using h m
      register_existing_fails_unregister_reports
        [of sample_api "''a''" "\<lambda>v. CompletesLater" "[]"
            "[(''c'', sample_handler), (''a'', (\<lambda>v. CompletesLater))]"]
    by (simp add: sample_api_def newAPI_def Map_get_def Map_keys_def)
qed

text \<open>
  C9. Registration of a list is not atomic. When position \<open>k\<close> is the first whose name
  is registered already or repeats an earlier name of the list, \<^verbatim>\<open>registerHandlers\<close>
  throws for that name, and the table it leaves holds the \<open>k\<close> pairs before it, added
  in order behind what was there.
\<close>

theorem registerHandlers_not_atomic:
  assumes "k < length hs"
    and "distinct (map fst (take k hs))"
    and "\<forall>key \<in> set (map fst (take k hs)). \<not> Map_has (messageHandlers api) key"
    and "Map_has (messageHandlers api) (fst (hs ! k)) \<or> fst (hs ! k) \<in> set (map fst (take k hs))"
  shows "registerHandlers hs api =
           (Some (Error (''Handler '' @ fst (hs ! k) @ '' is already registered'')),
            api\<lparr>messageHandlers := messageHandlers api @ take k hs\<rparr>)"
  using registerHandlers_loop_prefix [OF assms]
  by (simp add: registerHandlers_def)

theorem registerHandlers_not_atomic_witness:
  "(2::nat) < length [(''b'', sample_handler), (''c'', sample_handler), (''a'', sample_handler)]
   \<and> distinct (map fst (take 2
        [(''b'', sample_handler), (''c'', sample_handler), (''a'', sample_handler)]))
   \<and> \<not> Map_has (messageHandlers sample_api) ''b''
   \<and> \<not> Map_has (messageHandlers sample_api) ''c''
   \<and> Map_has (messageHandlers sample_api) ''a''
   \<and> registerHandlers
        [(''b'', sample_handler), (''c'', sample_handler), (''a'', sample_handler)] sample_api =
       (Some (Error ''Handler a is already registered''),
        sample_api\<lparr>messageHandlers :=
          [(''a'', sample_handler), (''b'', sample_handler), (''c'', sample_handler)]\<rparr>)"
proof -
  let ?hs = "[(''b'', sample_handler), (''c'', sample_handler), (''a'', sample_handler)]"
  have t: "take 2 ?hs = [(''b'', sample_handler), (''c'', sample_handler)]"
    by (simp add: numeral_2_eq_2)
  have n: "?hs ! 2 = (''a'', sample_handler)"
    by (simp add: numeral_2_eq_2)
  have 1: "(2::nat) < length ?hs" by simp
  have 2: "distinct (map fst (take 2 ?hs))" by (simp add: t)
  have 3: "\<forall>key \<in> set (map fst (take 2 ?hs)). \<not> Map_has (messageHandlers sample_api) key"
    by (simp add: t sample_api_def newAPI_def Map_has_def)
  have a: "Map_has (messageHandlers sample_api) ''a''"
    by (simp add: sample_api_def newAPI_def Map_has_def)
  have 4: "Map_has (messageHandlers sample_api) (fst (?hs ! 2))
           \<or> fst (?hs ! 2) \<in> set (map fst (take 2 ?hs))"
    using a by (simp add: n)
  show ?thesis
    using 1 2 3 a registerHandlers_not_atomic [OF 1 2 3 4]
    by (simp add: t n sample_api_def newAPI_def)
qed

text \<open>
  C9, as first stated, speaks of every position \<open>k\<close> whose name is registered already
  or repeats an earlier name, first such position or not. With \<open>a\<close> and \<open>b\<close>
  registered and the list \<open>a\<close>, \<open>c\<close>, \<open>b\<close>, the name at position 2 is registered,
  but \<^verbatim>\<open>registerHandlers\<close> throws for \<open>a\<close> at position 0, not for \<open>b\<close>, and leaves
  the table as it was: \<open>c\<close>, a pair before position 2, has not been inserted.
\<close>

theorem registerHandlers_later_position_counterexample:
  "Map_has [(''a'', sample_handler), (''b'', sample_handler)]
      (fst ([(''a'', sample_handler), (''c'', sample_handler), (''b'', sample_handler)] ! 2))
   \<and> registerHandlers
        [(''a'', sample_handler), (''c'', sample_handler), (''b'', sample_handler)]
        (newAPI\<lparr>messageHandlers := [(''a'', sample_handler), (''b'', sample_handler)]\<rparr>) =
       (Some (Error ''Handler a is already registered''),
        newAPI\<lparr>messageHandlers := [(''a'', sample_handler), (''b'', sample_handler)]\<rparr>)
   \<and> fst (registerHandlers
        [(''a'', sample_handler), (''c'', sample_handler), (''b'', sample_handler)]
        (newAPI\<lparr>messageHandlers := [(''a'', sample_handler), (''b'', sample_handler)]\<rparr>)) \<noteq>
       Some (Error ''Handler b is already registered'')
   \<and> Map_get (messageHandlers (snd (registerHandlers
        [(''a'', sample_handler), (''c'', sample_handler), (''b'', sample_handler)]
        (newAPI\<lparr>messageHandlers := [(''a'', sample_handler), (''b'', sample_handler)]\<rparr>))))
        ''c'' = None"
  by (simp add: registerHandlers_def newAPI_def Map_has_def Map_get_def numeral_2_eq_2)

text \<open>
  C10. For an acknowledged tracked invocation, a result payload with an \<open>error\<close> field
  rejects the promise with the deserialized error whatever its \<open>result\<close> field holds;
  the promise is resolved with the \<open>result\<close> field only when \<open>error\<close> is undefined.
\<close>

theorem result_error_takes_precedence:
  assumes "Map_get (activeInvocations st) i = Some ivc" and "ack ivc"
  shows "trace (onResult i \<lparr>error = Some d, result = v\<rparr> st) =
           trace st @ [Reject (resolver ivc) (Deserialized d)]
         \<and> trace (onResult i \<lparr>error = None, result = v\<rparr> st) =
           trace st @ [Resolve (resolver ivc) v]"
  using assms
  by (simp add: onResult_def Let_def trace_emit trace_clearTimeout split: option.splits)

theorem result_error_takes_precedence_witness:
  "Map_get (activeInvocations (onAck 0 False
      (invoke ''ping'' JNull (Some 3000) (Some 10000) False None (openedPort 1 2 7)))) 0 =
     Some \<lparr>invocation_id = 0, resolver = 0, responseTimeout = Some 10000,
           action = ''ping'', ack = True, timer = Some 1\<rparr>
   \<and> trace (onResult 0 \<lparr>error = Some (Serialized ''boom''), result = JStr ''pong''\<rparr>
        (onAck 0 False
          (invoke ''ping'' JNull (Some 3000) (Some 10000) False None (openedPort 1 2 7)))) =
       [PostMessage (Invoke 0 ''ping'' JNull) None,
        Reject 0 (Deserialized (Serialized ''boom''))]
   \<and> trace (onResult 0 \<lparr>error = None, result = JStr ''pong''\<rparr>
        (onAck 0 False
          (invoke ''ping'' JNull (Some 3000) (Some 10000) False None (openedPort 1 2 7)))) =
       [PostMessage (Invoke 0 ''ping'' JNull) None, Resolve 0 (JStr ''pong'')]"
proof -
  let ?st = "onAck 0 False
      (invoke ''ping'' JNull (Some 3000) (Some 10000) False None (openedPort 1 2 7))"
  let ?ivc = "\<lparr>invocation_id = 0, resolver = 0, responseTimeout = Some 10000,
           action = ''ping'', ack = True, timer = Some 1\<rparr>"
  have h: "Map_get (activeInvocations ?st) 0 = Some ?ivc"
    by (simp add: sample_acknowledged Map_get_def)
  have a: "ack ?ivc" by simp
  show ?thesis
    using h result_error_takes_precedence [OF h a, of "Serialized ''boom''" "JStr ''pong''"]
    by (simp add: sample_acknowledged)
qed

end
